theory Spec2Isabelle
  imports Main
begin

section \<open>Messages and updates\<close>

text \<open>
  The exercises exchange \<open>BaseMessage\<close> objects. A message has a role (the concrete
  class: \<open>HumanMessage\<close>, \<open>AIMessage\<close>, \<open>SystemMessage\<close>, \<open>ToolMessage\<close>), an
  optional identifier (\<open>id?: string\<close>) and a content that is either a string or a
  structured payload. \<open>RemoveMessage\<close> is the tombstone class: it carries a mandatory
  identifier and an empty content.
\<close>

datatype role = Human | AI | System | Tool

datatype content = Text string | Blocks "string list"

datatype message =
    Msg role "string option" content
  | RemoveMessage string

text \<open>The field \<open>m.id\<close>: \<open>None\<close> is JavaScript's \<open>undefined\<close>.\<close>

fun msg_id :: "message \<Rightarrow> string option" where
  "msg_id (Msg r i c) = i"
| "msg_id (RemoveMessage i) = Some i"

text \<open>The field \<open>m.content\<close>.\<close>

fun msg_content :: "message \<Rightarrow> content" where
  "msg_content (Msg r i c) = c"
| "msg_content (RemoveMessage i) = Text []"

text \<open>The test \<open>msg instanceof RemoveMessage\<close>.\<close>

fun is_remove :: "message \<Rightarrow> bool" where
  "is_remove (Msg r i c) = False"
| "is_remove (RemoveMessage i) = True"

text \<open>
  The test \<open>if (msg.id)\<close>: an identifier is truthy when it is defined and is not the
  empty string.
\<close>

fun truthy :: "string option \<Rightarrow> bool" where
  "truthy None = False"
| "truthy (Some s) = (s \<noteq> [])"

text \<open>
  A reducer's second argument has the type \<open>T | T[]\<close>; \<open>messagesToAdd\<close> is the
  normalisation \<open>Array.isArray(update) ? update : [update]\<close> every reducer starts with
  (\<open>concatReducer\<close> calls the same array \<open>updateArray\<close>).
\<close>

datatype 'a update = Single 'a | Many "'a list"

fun messagesToAdd :: "'a update \<Rightarrow> 'a list" where
  "messagesToAdd (Single x) = [x]"
| "messagesToAdd (Many xs) = xs"

text \<open>
  \<open>Array.prototype.findIndex\<close>: the index of the first element that satisfies the
  predicate; \<open>None\<close> stands for the result \<open>-1\<close>.
\<close>

fun findIndex :: "('a \<Rightarrow> bool) \<Rightarrow> 'a list \<Rightarrow> nat option" where
  "findIndex P [] = None"
| "findIndex P (x # xs) =
     (if P x then Some 0 else map_option Suc (findIndex P xs))"

section \<open>The reducers\<close>

subsection \<open>Append reducers\<close>

text \<open>\<open>concatReducer\<close> of \<open>state-reducers.mts\<close>: \<open>[...current, ...updateArray]\<close>.\<close>

definition concatReducer :: "'a list \<Rightarrow> 'a update \<Rightarrow> 'a list" where
  "concatReducer current upd = current @ messagesToAdd upd"

text \<open>
  \<open>addMessages\<close> of \<open>router.mts\<close>, \<open>agent-memory.mts\<close> and
  \<open>agent-memory-server.mts\<close> (the three bodies are the same):
  \<open>[...current, ...messagesToAdd]\<close>.
\<close>

definition addMessages_router :: "message list \<Rightarrow> message update \<Rightarrow> message list" where
  "addMessages_router current upd = current @ messagesToAdd upd"

subsection \<open>The replacing reducer of \<open>state-reducers.mts\<close>\<close>

text \<open>
  \<open>addMessages\<close> of \<open>state-reducers.mts\<close>; the first \<open>addMessages\<close> of
  \<open>trim-filter-messages.mts\<close> has the same body. One turn of the loop \<open>for (const message of messagesToAdd)\<close> on the array
  \<open>result\<close>: a message with a truthy identifier that some element of \<open>result\<close>
  carries overwrites the first such element (\<open>result[existingIndex] = message\<close>);
  any other message is pushed. The class of the message is never inspected here.
\<close>

definition replace_step :: "message list \<Rightarrow> message \<Rightarrow> message list" where
  "replace_step result message =
     (if truthy (msg_id message) then
        (case findIndex (\<lambda>m. msg_id m = msg_id message) result of
           Some existingIndex \<Rightarrow> result[existingIndex := message]
         | None \<Rightarrow> result @ [message])
      else result @ [message])"

definition addMessages_reducers :: "message list \<Rightarrow> message update \<Rightarrow> message list" where
  "addMessages_reducers current upd = foldl replace_step current (messagesToAdd upd)"

subsection \<open>The removing reducer of the summarization exercises\<close>

text \<open>
  \<open>addMessages\<close> of the summarization exercise; the second \<open>addMessages\<close> of
  \<open>trim-filter-messages.mts\<close> has the same body. One turn of the loop \<open>for (const msg of messagesToAdd)\<close>: a \<open>RemoveMessage\<close>
  splices out the first element with its identifier, if there is one
  (\<open>result.splice(index, 1)\<close>); any other message is handled as in the replacing
  reducer.
\<close>

definition remove_step :: "message list \<Rightarrow> message \<Rightarrow> message list" where
  "remove_step result msg =
     (if is_remove msg then
        (case findIndex (\<lambda>m. msg_id m = msg_id msg) result of
           Some index \<Rightarrow> take index result @ drop (Suc index) result
         | None \<Rightarrow> result)
      else if truthy (msg_id msg) then
        (case findIndex (\<lambda>m. msg_id m = msg_id msg) result of
           Some existingIndex \<Rightarrow> result[existingIndex := msg]
         | None \<Rightarrow> result @ [msg])
      else result @ [msg])"

definition addMessages_summarization ::
    "message list \<Rightarrow> message update \<Rightarrow> message list" where
  "addMessages_summarization current upd = foldl remove_step current (messagesToAdd upd)"

text \<open>\<open>updateSummary\<close>: the reducer of the \<open>summary\<close> channel returns the update.\<close>

definition updateSummary :: "string \<Rightarrow> string \<Rightarrow> string" where
  "updateSummary current upd = upd"

section \<open>States, nodes and routing functions of the exercises\<close>

type_synonym node_name = string

text \<open>The sentinels \<open>START\<close> and \<open>END\<close> the exercises import; only their being
  different from every node name matters.\<close>

definition START :: node_name where "START = ''__start__''"

definition END :: node_name where "END = ''__end__''"

subsection \<open>The summarization exercise\<close>

text \<open>
  \<open>MessagesState = { messages: BaseMessage[] }\<close>, and the summarization exercise's
  \<open>State\<close>, which adds the field \<open>summary\<close>. A node returns a \<open>Partial<State>\<close>: every
  key is optional, \<open>None\<close> is an absent key.
\<close>

record MessagesState =
  messages :: "message list"

record State = MessagesState +
  summary :: string

record MessagesState_partial =
  messages_upd :: "message update option"

record State_partial = MessagesState_partial +
  summary_upd :: "string option"

text \<open>
  The chat model is an external service: \<open>model.invoke(messages)\<close> is a parameter
  \<open>model\<close> of the nodes, a function from the prompt to the response.
\<close>

definition call_model :: "(message list \<Rightarrow> message) \<Rightarrow> State \<Rightarrow> State_partial" where
  "call_model model state =
     (let summary = summary state;
          messages = (if summary \<noteq> []
                      then Msg System None (Text (''Summary of conversation earlier: '' @ summary))
                             # messages state
                      else messages state);
          response = model messages
      in \<lparr>messages_upd = Some (Many [response]), summary_upd = None\<rparr>)"

text \<open>\<open>state.messages.slice(0, -2)\<close>: all but the last two messages.\<close>

definition messagesToRemove :: "message list \<Rightarrow> message list" where
  "messagesToRemove msgs = take (length msgs - 2) msgs"

text \<open>
  \<open>messagesToRemove.map((m) => new RemoveMessage({ id: m.id || "" }))\<close>: a message
  whose identifier is undefined or empty gets a tombstone with the empty identifier.
\<close>

definition removeMessages :: "message list \<Rightarrow> message list" where
  "removeMessages msgs =
     map (\<lambda>m. RemoveMessage (case msg_id m of None \<Rightarrow> [] | Some s \<Rightarrow> if s \<noteq> [] then s else []))
       (messagesToRemove msgs)"

definition summarize_conversation :: "(message list \<Rightarrow> message) \<Rightarrow> State \<Rightarrow> State_partial" where
  "summarize_conversation model state =
     (let existingSummary = summary state;
          summaryPrompt =
            (if existingSummary \<noteq> []
             then ''This is summary of the conversation to date: '' @ existingSummary
                    @ [CHR 0x0A, CHR 0x0A]
                    @ ''Extend the summary by taking into account the new messages above:''
             else ''Create a summary of the conversation above:'');
          messagesWithPrompt = messages state @ [Msg Human None (Text summaryPrompt)];
          response = model messagesWithPrompt;
          newSummary = (case msg_content response of Text s \<Rightarrow> s | Blocks bs \<Rightarrow> [])
      in \<lparr>messages_upd = Some (Many (removeMessages (messages state))),
          summary_upd = Some newSummary\<rparr>)"

text \<open>The routing function of the conditional edge that leaves \<open>conversation\<close>.\<close>

definition should_continue :: "State \<Rightarrow> node_name" where
  "should_continue state =
     (if length (messages state) > 6 then ''summarize_conversation'' else END)"

subsection \<open>The agent with memory\<close>

definition sysMsg :: message where
  "sysMsg = Msg System None
     (Text ''You are a helpful assistant tasked with performing arithmetic on a set of inputs.'')"

text \<open>The node \<open>assistant\<close>; \<open>llmWithTools.invoke\<close> is the external model again.\<close>

definition assistant :: "(message list \<Rightarrow> message) \<Rightarrow> MessagesState \<Rightarrow> MessagesState_partial" where
  "assistant llmWithTools state =
     (let result = llmWithTools (sysMsg # messages state)
      in \<lparr>messages_upd = Some (Many [result])\<rparr>)"

subsection \<open>The branching graph of \<open>state-reducers.mts\<close>\<close>

text \<open>
  \<open>DefaultState = { foo: number }\<close>. A \<open>number\<close> is a double, whose arithmetic is
  not modelled: the state is parametric in the type of numbers, and \<open>state.foo + 1\<close>
  is the parameter \<open>add_one\<close> of the three nodes.
\<close>

record 'n DefaultState =
  foo :: 'n

record 'n DefaultState_partial =
  foo_upd :: "'n option"

definition node_1_branch :: "('n \<Rightarrow> 'n) \<Rightarrow> 'n DefaultState \<Rightarrow> 'n DefaultState_partial" where
  "node_1_branch add_one state = \<lparr>foo_upd = Some (add_one (foo state))\<rparr>"

definition node_2_branch :: "('n \<Rightarrow> 'n) \<Rightarrow> 'n DefaultState \<Rightarrow> 'n DefaultState_partial" where
  "node_2_branch add_one state = \<lparr>foo_upd = Some (add_one (foo state))\<rparr>"

definition node_3_branch :: "('n \<Rightarrow> 'n) \<Rightarrow> 'n DefaultState \<Rightarrow> 'n DefaultState_partial" where
  "node_3_branch add_one state = \<lparr>foo_upd = Some (add_one (foo state))\<rparr>"

section \<open>The graph executor\<close>

text \<open>
  The exercises build their graphs with \<open>new StateGraph(...)\<close>, \<open>addNode\<close>,
  \<open>addEdge\<close>, \<open>addConditionalEdges\<close>, \<open>compile\<close> and run them with \<open>invoke\<close>. The
  code behind these calls (the channel store, the step loop and the checkpointer
  \<open>MemorySaver\<close>) is the orchestration library's and is not among the sources; the
  definitions of this section follow the specification's sections 4.1, 4.2, 4.3 and 6.
  The reducers, the node functions, the routing function and the wiring of each graph
  are the exercises' own.
\<close>

text \<open>Modelled from the spec: the error taxonomy of section 7, as far as the executor
  below raises it (the library's error classes are not in the sources).\<close>

datatype error = UnknownNodeError | ConcurrentWriteConflict

text \<open>Modelled from the spec: how a run of the step loop ends (the library's
  \<open>invoke\<close> is not in the sources). \<open>OutOfSteps\<close> is the bound on the number of steps
  that makes the loop a total function; the specification has no such bound.\<close>

datatype outcome = Finished | Failed error | OutOfSteps

text \<open>Modelled from the spec: \<open>applyUpdate\<close> of the Channel Store (library code, not in
  the sources) for one channel: a key absent from the partial update leaves the value
  untouched, a present key goes through the channel's merge function.\<close>

definition merge_channel :: "('v \<Rightarrow> 'u \<Rightarrow> 'v) \<Rightarrow> 'v \<Rightarrow> 'u option \<Rightarrow> 'v" where
  "merge_channel reducer current proposed =
     (case proposed of None \<Rightarrow> current | Some u \<Rightarrow> reducer current u)"

text \<open>Modelled from the spec: a compiled graph (the library's \<open>StateGraph\<close> is not in
  the sources): the nodes in registration order, the fixed and the conditional edges, the
  channels' default values, their merge step \<open>applyUpdate\<close>, the keys a partial update
  carries and the keys of the channels that the graph declares as overwrite channels,
  which hold the last value written and accept one write in a step.\<close>

record ('s, 'p) graph =
  nodes :: "(node_name \<times> ('s \<Rightarrow> 'p)) list"
  edges :: "(node_name \<times> node_name) list"
  conditional_edges :: "(node_name \<times> ('s \<Rightarrow> node_name list)) list"
  defaults :: 's
  applyUpdate :: "'s \<Rightarrow> 'p \<Rightarrow> 's"
  written :: "'p \<Rightarrow> string list"
  overwrite_channels :: "string list"

text \<open>Modelled from the spec: what a run returns (the library's \<open>invoke\<close> is not in
  the sources): the last snapshot, how the run ended, the nodes invoked and the partial
  updates merged, both in order.\<close>

record ('s, 'p) run_result =
  final :: 's
  outcome :: outcome
  trace :: "node_name list"
  applied :: "'p list"

text \<open>Modelled from the spec: the concurrent-write check of section 4.2, step 3 (library
  code, not in the sources): two partial updates of one step carry the key of the same
  overwrite channel.\<close>

definition conflict :: "('s, 'p) graph \<Rightarrow> 'p list \<Rightarrow> bool" where
  "conflict g ups =
     list_ex (\<lambda>k. 1 < length (filter (\<lambda>p. k \<in> set (written g p)) ups)) (overwrite_channels g)"

text \<open>Modelled from the spec: edge resolution, section 4.2, step 4 (library code, not in
  the sources): for each node just run, its fixed edges fire and its conditional edges
  fire the destinations their routing function returns on the post-merge snapshot.\<close>

definition destinations :: "('s, 'p) graph \<Rightarrow> 's \<Rightarrow> node_name list \<Rightarrow> node_name list" where
  "destinations g s invoked =
     concat (map (\<lambda>n. map snd (filter (\<lambda>e. fst e = n) (edges g))
                    @ concat (map (\<lambda>c. snd c s) (filter (\<lambda>c. fst c = n) (conditional_edges g))))
             invoked)"

text \<open>Modelled from the spec: one step of the executor, section 4.2, steps 2 to 4 (library
  code, not in the sources). The nodes of the current set run on the same snapshot; their
  partial updates are merged in registration order unless two of them write the same
  overwrite channel; a destination that is not a registered node is an error. The step
  returns the new snapshot, the nodes invoked, their updates and the next node set.\<close>

definition step ::
  "('s, 'p) graph \<Rightarrow> 's \<Rightarrow> node_name list
     \<Rightarrow> error + ('s \<times> node_name list \<times> 'p list \<times> node_name list)" where
  "step g s current =
     (if \<exists>n\<in>set current. n \<notin> set (map fst (nodes g)) then Inl UnknownNodeError
      else
        let invoked = filter (\<lambda>nf. fst nf \<in> set current) (nodes g);
            ups = map (\<lambda>nf. snd nf s) invoked
        in if conflict g ups then Inl ConcurrentWriteConflict
           else
             let s' = foldl (applyUpdate g) s ups
             in Inr (s', map fst invoked, ups, remdups (destinations g s' (map fst invoked))))"

text \<open>Modelled from the spec: the step loop, section 4.2, step 5 (library code, not in the
  sources): steps repeat until every destination is \<open>END\<close>; an error aborts the run and
  leaves the snapshot of before the failing step. The first argument bounds the number
  of steps.\<close>

fun run :: "nat \<Rightarrow> ('s, 'p) graph \<Rightarrow> 's \<Rightarrow> node_name list \<Rightarrow> ('s, 'p) run_result" where
  "run 0 g s current =
     \<lparr>final = s,
      outcome = (if filter (\<lambda>n. n \<noteq> END) current = [] then Finished else OutOfSteps),
      trace = [], applied = []\<rparr>"
| "run (Suc k) g s current =
     (let todo = filter (\<lambda>n. n \<noteq> END) current
      in if todo = [] then \<lparr>final = s, outcome = Finished, trace = [], applied = []\<rparr>
         else
           (case step g s todo of
              Inl e \<Rightarrow> \<lparr>final = s, outcome = Failed e, trace = [], applied = []\<rparr>
            | Inr (s', invoked, ups, dests) \<Rightarrow>
                (let r = run k g s' dests
                 in r\<lparr>trace := invoked @ trace r, applied := ups @ applied r\<rparr>)))"

text \<open>Modelled from the spec: the entry of a run, section 4.2, step 1 (library code, not in
  the sources): the fixed edges that leave \<open>START\<close>.\<close>

definition entry_nodes :: "('s, 'p) graph \<Rightarrow> node_name list" where
  "entry_nodes g = map snd (filter (\<lambda>e. fst e = START) (edges g))"

text \<open>Modelled from the spec: the Checkpoint Adapter of section 4.3 (the library's
  \<open>MemorySaver\<close> is not in the sources): snapshots keyed by the conversation identifier.\<close>

type_synonym 's checkpointer = "string \<rightharpoonup> 's"

text \<open>Modelled from the spec: run invocation, section 6 (the library's \<open>invoke\<close> is not in
  the sources): with a conversation identifier that has a snapshot, the snapshot is the
  base state, otherwise the channels' defaults are; the initial partial state is merged
  into the base as an update; the last snapshot of the run is saved under the
  identifier.\<close>

definition invoke ::
  "nat \<Rightarrow> ('s, 'p) graph \<Rightarrow> 's checkpointer \<Rightarrow> string option \<Rightarrow> 'p
     \<Rightarrow> ('s, 'p) run_result \<times> 's checkpointer" where
  "invoke limit g memory thread_id initialPartial =
     (let base = (case thread_id of
                    None \<Rightarrow> defaults g
                  | Some t \<Rightarrow> (case memory t of None \<Rightarrow> defaults g | Some snapshot \<Rightarrow> snapshot));
          r = run limit g (applyUpdate g base initialPartial) (entry_nodes g)
      in (r, case thread_id of None \<Rightarrow> memory | Some t \<Rightarrow> memory(t \<mapsto> final r)))"

subsection \<open>The graphs of the exercises\<close>

text \<open>
  Every channel of the exercises is declared by a default and a reducer
  (\<open>channels: { key: { default, reducer } }\<close>), and the writes of a step are merged
  through the reducer: none of the graphs declares an overwrite channel.
\<close>

text \<open>
  \<open>graphBranch\<close> of \<open>state-reducers.mts\<close>: the nodes and edges are the \<open>addNode\<close> and
  \<open>addEdge\<close> calls in their order; the only channel, \<open>foo\<close>, is declared with the
  default \<open>0\<close> (the parameter \<open>zero\<close>) and the reducer
  \<open>(current, update) => update\<close>.
\<close>

definition graphBranch ::
  "('n \<Rightarrow> 'n) \<Rightarrow> 'n \<Rightarrow> ('n DefaultState, 'n DefaultState_partial) graph" where
  "graphBranch add_one zero =
     \<lparr>nodes = [(''node_1'', node_1_branch add_one), (''node_2'', node_2_branch add_one),
               (''node_3'', node_3_branch add_one)],
      edges = [(START, ''node_1''), (''node_1'', ''node_2''), (''node_1'', ''node_3''),
               (''node_2'', END), (''node_3'', END)],
      conditional_edges = [],
      defaults = \<lparr>foo = zero\<rparr>,
      applyUpdate = (\<lambda>s p. \<lparr>foo = merge_channel (\<lambda>current update. update) (foo s) (foo_upd p)\<rparr>),
      written = (\<lambda>p. if foo_upd p = None then [] else [''foo'']),
      overwrite_channels = []\<rparr>"

text \<open>Modelled from the spec: \<open>applyUpdate\<close> of the Channel Store (library code, not in
  the sources) for the channels the summarization exercise declares: \<open>messages\<close> with the
  reducer \<open>addMessages\<close>, \<open>summary\<close> with the reducer \<open>updateSummary\<close>.\<close>

definition applyUpdate_State :: "State \<Rightarrow> State_partial \<Rightarrow> State" where
  "applyUpdate_State s p =
     \<lparr>messages = merge_channel addMessages_summarization (messages s) (messages_upd p),
      summary = merge_channel updateSummary (summary s) (summary_upd p)\<rparr>"

text \<open>
  The graph of the summarization exercise: two nodes, the entry edge to
  \<open>conversation\<close>, the conditional edge from \<open>conversation\<close> through
  \<open>should_continue\<close>, and the edge from \<open>summarize_conversation\<close> to \<open>END\<close>.
\<close>

definition summarization_graph :: "(message list \<Rightarrow> message) \<Rightarrow> (State, State_partial) graph" where
  "summarization_graph model =
     \<lparr>nodes = [(''conversation'', call_model model),
               (''summarize_conversation'', summarize_conversation model)],
      edges = [(START, ''conversation''), (''summarize_conversation'', END)],
      conditional_edges = [(''conversation'', \<lambda>s. [should_continue s])],
      defaults = \<lparr>messages = [], summary = []\<rparr>,
      applyUpdate = applyUpdate_State,
      written = (\<lambda>p. (if messages_upd p = None then [] else [''messages''])
                      @ (if summary_upd p = None then [] else [''summary''])),
      overwrite_channels = []\<rparr>"

text \<open>Modelled from the spec: \<open>applyUpdate\<close> of the Channel Store (library code, not in
  the sources) for the only channel of the agent with memory: \<open>messages\<close> with the
  append-only reducer \<open>addMessages\<close>.\<close>

definition applyUpdate_MessagesState ::
    "MessagesState \<Rightarrow> MessagesState_partial \<Rightarrow> MessagesState" where
  "applyUpdate_MessagesState s p =
     \<lparr>messages = merge_channel addMessages_router (messages s) (messages_upd p)\<rparr>"

text \<open>
  \<open>reactGraphMemory\<close> of \<open>agent-memory.mts\<close>. The node \<open>tools\<close> (\<open>new ToolNode(tools)\<close>)
  and the routing function \<open>toolsCondition\<close> are prebuilt parts of the library: they are
  parameters here, any node function and any routing function.
\<close>

definition reactGraphMemory ::
  "(message list \<Rightarrow> message) \<Rightarrow> (MessagesState \<Rightarrow> MessagesState_partial)
     \<Rightarrow> (MessagesState \<Rightarrow> node_name list) \<Rightarrow> (MessagesState, MessagesState_partial) graph" where
  "reactGraphMemory llmWithTools toolNode toolsCondition =
     \<lparr>nodes = [(''assistant'', assistant llmWithTools), (''tools'', toolNode)],
      edges = [(START, ''assistant''), (''tools'', ''assistant'')],
      conditional_edges = [(''assistant'', toolsCondition)],
      defaults = \<lparr>messages = []\<rparr>,
      applyUpdate = applyUpdate_MessagesState,
      written = (\<lambda>p. if messages_upd p = None then [] else [''messages'']),
      overwrite_channels = []\<rparr>"

text \<open>The messages a partial update of the agent contributes to the \<open>messages\<close> channel.\<close>

definition contribution :: "MessagesState_partial \<Rightarrow> message list" where
  "contribution p = (case messages_upd p of None \<Rightarrow> [] | Some u \<Rightarrow> messagesToAdd u)"

section \<open>Vocabulary for the closed form of the message-list merge\<close>

text \<open>
  What an update \<open>us\<close> leaves at the position \<open>j\<close> of the current list: when the
  message there has a truthy identifier and is the first that bears it, the last
  message of the update with this identifier, if there is one; the message itself in
  every other case.
\<close>

definition placed :: "message list \<Rightarrow> message list \<Rightarrow> nat \<Rightarrow> message" where
  "placed current us j =
     (if truthy (msg_id (current ! j))
         \<and> findIndex (\<lambda>m. msg_id m = msg_id (current ! j)) current = Some j
      then (case List.find (\<lambda>u. msg_id u = msg_id (current ! j)) (rev us) of
              Some u \<Rightarrow> u
            | None \<Rightarrow> current ! j)
      else current ! j)"

text \<open>The current list, position by position, after the replacements of the update.\<close>

definition replaced :: "message list \<Rightarrow> message list \<Rightarrow> message list" where
  "replaced current us = map (placed current us) [0..<length current]"

text \<open>The elements of the update that replace nothing: their identifier is not truthy
  or no message of the current list bears it.\<close>

definition unmatched :: "message list \<Rightarrow> message list \<Rightarrow> message list" where
  "unmatched current us =
     filter (\<lambda>u. \<not> (truthy (msg_id u) \<and> msg_id u \<in> set (map msg_id current))) us"

text \<open>No tombstone of the update has the identifier of a message of the update that is
  not a tombstone.\<close>

definition tombstones_apart :: "message list \<Rightarrow> bool" where
  "tombstones_apart us =
     (\<forall>t\<in>set us. \<forall>u\<in>set us. is_remove t \<and> \<not> is_remove u \<longrightarrow> msg_id u \<noteq> msg_id t)"

text \<open>At most one message of the current list bears the identifier of a tombstone of the
  update.\<close>

definition single_bearer :: "message list \<Rightarrow> message list \<Rightarrow> bool" where
  "single_bearer current us =
     (\<forall>t\<in>set us. is_remove t \<longrightarrow> length (filter (\<lambda>m. msg_id m = msg_id t) current) \<le> 1)"

text \<open>The update's messages with a truthy identifier that no message of the current list
  bears have pairwise distinct identifiers.\<close>

definition fresh_distinct :: "message list \<Rightarrow> message list \<Rightarrow> bool" where
  "fresh_distinct current us =
     distinct (map msg_id
       (filter (\<lambda>u. \<not> is_remove u \<and> truthy (msg_id u)
                     \<and> msg_id u \<notin> set (map msg_id current)) us))"

text \<open>The existing messages that no tombstone of the update matches, in their order,
  after the replacements by the update's messages.\<close>

definition kept :: "message list \<Rightarrow> message list \<Rightarrow> message list" where
  "kept current us =
     filter (\<lambda>m. msg_id m \<notin> set (map msg_id (filter is_remove us)))
       (replaced current (filter (\<lambda>u. \<not> is_remove u) us))"

text \<open>The update's messages that are appended, in the order supplied: those that are no
  tombstone and whose identifier is not truthy or matches no existing message.\<close>

definition appended :: "message list \<Rightarrow> message list \<Rightarrow> message list" where
  "appended current us =
     filter (\<lambda>u. \<not> is_remove u \<and> \<not> (truthy (msg_id u) \<and> msg_id u \<in> set (map msg_id current))) us"

section \<open>Small instances\<close>

text \<open>A model that always answers \<open>ok\<close>, and the agent with memory built on it: its
  tools node contributes nothing and its routing function ends the run.\<close>

definition ok_model :: "message list \<Rightarrow> message" where
  "ok_model prompt = Msg AI (Some ''r'') (Text ''ok'')"

definition ok_agent :: "(MessagesState, MessagesState_partial) graph" where
  "ok_agent = reactGraphMemory ok_model (\<lambda>s. \<lparr>messages_upd = None\<rparr>) (\<lambda>s. [END])"

section \<open>Facts about \<open>findIndex\<close>\<close>

lemma findIndex_None_iff: "findIndex P xs = None \<longleftrightarrow> (\<forall>x\<in>set xs. \<not> P x)"
  by (induction xs) auto

lemma findIndex_Some_lt: "findIndex P xs = Some i \<Longrightarrow> i < length xs \<and> P (xs ! i)"
  by (induction xs arbitrary: i) (auto split: if_splits)

lemma findIndex_first:
  "(\<forall>x\<in>set xs. \<not> P x) \<Longrightarrow> P b \<Longrightarrow> findIndex P (xs @ b # ys) = Some (length xs)"
  by (induction xs) auto

lemma findIndex_append_None:
  "(\<forall>y\<in>set ys. \<not> P y) \<Longrightarrow> findIndex P (xs @ ys) = findIndex P xs"
  by (induction xs) (auto simp: findIndex_None_iff)

lemma findIndex_append_Some:
  "findIndex P xs = Some i \<Longrightarrow> findIndex P (xs @ ys) = Some i"
  by (induction xs arbitrary: i) (auto split: if_splits)

lemma findIndex_snoc_None:
  "findIndex P xs = None \<Longrightarrow> P v \<Longrightarrow> findIndex P (xs @ [v]) = Some (length xs)"
  using findIndex_first [of xs P v "[]"] by (simp add: findIndex_None_iff)

lemma findIndex_update_same:
  "j < length xs \<Longrightarrow> P v = P (xs ! j) \<Longrightarrow> findIndex P (xs[j := v]) = findIndex P xs"
proof (induction xs arbitrary: j)
  case Nil
  then show ?case by simp
next
  case (Cons x xs)
  then show ?case by (cases j) auto
qed

lemma findIndex_present:
  "k \<in> msg_id ` set res \<Longrightarrow> \<exists>i. findIndex (\<lambda>x. msg_id x = k) res = Some i"
  using findIndex_None_iff [of "\<lambda>x. msg_id x = k" res]
  by (cases "findIndex (\<lambda>x. msg_id x = k) res") auto

section \<open>Append channels\<close>

lemma foldl_concatReducer:
  "foldl concatReducer init ups = init @ concat (map messagesToAdd ups)"
  by (induction ups arbitrary: init) (simp_all add: concatReducer_def)

lemma foldl_addMessages_router:
  "foldl addMessages_router init ups = init @ concat (map messagesToAdd ups)"
  by (induction ups arbitrary: init) (simp_all add: addMessages_router_def)

lemma length_concat_contributions:
  "length (concat (map messagesToAdd ups)) = sum_list (map (\<lambda>u. length (messagesToAdd u)) ups)"
  by (induction ups) simp_all

text \<open>
  Claim C4. An append channel that receives the updates \<open>ups\<close> one after the other
  ends as the initial value followed by every contribution in application order, and
  its length is the initial length plus the sum of the contributions' sizes; an update
  that is not an array contributes the one-element sequence of itself. This holds for
  \<open>concatReducer\<close> and for the append-only \<open>addMessages\<close>.
\<close>

theorem append_channel_accumulates:
  "foldl concatReducer init ups = init @ concat (map messagesToAdd ups)
   \<and> length (foldl concatReducer init ups)
       = length init + sum_list (map (\<lambda>u. length (messagesToAdd u)) ups)
   \<and> foldl addMessages_router minit mups = minit @ concat (map messagesToAdd mups)
   \<and> length (foldl addMessages_router minit mups)
       = length minit + sum_list (map (\<lambda>u. length (messagesToAdd u)) mups)
   \<and> concatReducer init (Single x) = init @ [x]
   \<and> concatReducer init (Many xs) = init @ xs
   \<and> addMessages_router minit (Single m) = minit @ [m]
   \<and> addMessages_router minit (Many ms) = minit @ ms"
proof -
  have "length (foldl concatReducer init ups)
        = length init + sum_list (map (\<lambda>u. length (messagesToAdd u)) ups)"
    by (simp add: foldl_concatReducer length_concat_contributions)
  moreover have "length (foldl addMessages_router minit mups)
        = length minit + sum_list (map (\<lambda>u. length (messagesToAdd u)) mups)"
    by (simp add: foldl_addMessages_router length_concat_contributions)
  ultimately show ?thesis
    by (simp add: foldl_concatReducer foldl_addMessages_router concatReducer_def
        addMessages_router_def)
qed

text \<open>Three updates of sizes 2, 1 and 0 on a channel that holds one number.\<close>

theorem append_channel_accumulates_witness:
  "foldl concatReducer [1::int] [Many [2, 3], Single 4, Many []] = [1, 2, 3, 4]
   \<and> length (foldl concatReducer [1::int] [Many [2, 3], Single 4, Many []]) = 1 + (2 + 1 + 0)"
  using append_channel_accumulates [of "[1::int]" "[Many [2, 3], Single 4, Many []]"]
  by (simp add: concatReducer_def)



section \<open>Replacement in place\<close>

lemma replace_step_first:
  assumes "msg_id m' = Some i" "i \<noteq> []" "msg_id b = Some i" "\<forall>x\<in>set xs. msg_id x \<noteq> Some i"
  shows "replace_step (xs @ b # ys) m' = xs @ m' # ys"
  using assms by (simp add: replace_step_def findIndex_first)

lemma remove_step_first:
  assumes "\<not> is_remove m'" "msg_id m' = Some i" "i \<noteq> []" "msg_id b = Some i"
    "\<forall>x\<in>set xs. msg_id x \<noteq> Some i"
  shows "remove_step (xs @ b # ys) m' = xs @ m' # ys"
  using assms by (simp add: remove_step_def findIndex_first)

lemma replace_step_length: "length res \<le> length (replace_step res m)"
  by (simp add: replace_step_def split: option.splits)

text \<open>The identifiers at the existing positions never change.\<close>

lemma replace_step_ids:
  assumes n: "n \<le> length res"
  shows "map msg_id (take n (replace_step res m)) = map msg_id (take n res)"
proof (cases "truthy (msg_id m)")
  case False
  then show ?thesis using n by (simp add: replace_step_def)
next
  case True
  show ?thesis
  proof (cases "findIndex (\<lambda>x. msg_id x = msg_id m) res")
    case None
    then show ?thesis using True n by (simp add: replace_step_def)
  next
    case (Some i)
    then have i: "i < length res" "msg_id (res ! i) = msg_id m"
      using findIndex_Some_lt [of "\<lambda>x. msg_id x = msg_id m" res i] by auto
    have "map msg_id (res[i := m]) = map msg_id res"
      using i by (simp add: map_update list_update_same_conv)
    then have "map msg_id (take n (res[i := m])) = map msg_id (take n res)"
      by (metis take_map)
    then show ?thesis using True Some by (simp add: replace_step_def)
  qed
qed

lemma foldl_replace_step_ids:
  "n \<le> length res \<Longrightarrow>
   map msg_id (take n (foldl replace_step res us)) = map msg_id (take n res)"
proof (induction us arbitrary: res)
  case Nil
  then show ?case by simp
next
  case (Cons u us)
  have "n \<le> length (replace_step res u)"
    using Cons.prems replace_step_length [of res u] by simp
  then show ?case using Cons.IH [of "replace_step res u"] Cons.prems
    by (simp add: replace_step_ids)
qed

text \<open>Without tombstones the removing reducer is the replacing reducer.\<close>

lemma remove_step_no_tombstone: "\<not> is_remove m \<Longrightarrow> remove_step res m = replace_step res m"
  by (simp add: remove_step_def replace_step_def)

lemma foldl_remove_step_no_tombstone:
  "\<forall>u\<in>set us. \<not> is_remove u \<Longrightarrow> foldl remove_step res us = foldl replace_step res us"
  by (induction us arbitrary: res) (simp_all add: remove_step_no_tombstone)

text \<open>The closed form of the replacing reducer.\<close>

lemma not_bearer: "k \<notin> msg_id ` set xs \<Longrightarrow> \<forall>x\<in>set xs. msg_id x \<noteq> k"
  by (metis imageI)

lemma replace_step_Cons:
  assumes "truthy (msg_id u)"
  shows "replace_step (x # xs) u
         = (if msg_id x = msg_id u then u # xs else x # replace_step xs u)"
  using assms by (simp add: replace_step_def split: option.splits)

lemma replace_step_append_nomatch:
  assumes "truthy (msg_id u)"
  shows "\<forall>x\<in>set ps. msg_id x \<noteq> msg_id u \<Longrightarrow>
         replace_step (ps @ ts) u = ps @ replace_step ts u"
proof (induction ps)
  case Nil
  show ?case by simp
next
  case (Cons p ps)
  then show ?case using assms by (simp add: replace_step_Cons)
qed

lemma findIndex_ids:
  "map msg_id xs = map msg_id ys \<Longrightarrow>
   findIndex (\<lambda>x. msg_id x = k) xs = findIndex (\<lambda>x. msg_id x = k) ys"
proof (induction xs arbitrary: ys)
  case Nil
  then show ?case by simp
next
  case (Cons x xs)
  then obtain y ys' where ys: "ys = y # ys'" by (cases ys) auto
  then have "msg_id x = msg_id y" "map msg_id xs = map msg_id ys'"
    using Cons.prems by auto
  then show ?case using Cons.IH [of ys'] ys by simp
qed

lemma placed_id:
  "msg_id (placed current us j) = msg_id (current ! j)"
proof (cases "List.find (\<lambda>u. msg_id u = msg_id (current ! j)) (rev us)")
  case None
  then show ?thesis by (simp add: placed_def)
next
  case (Some u)
  then have "msg_id u = msg_id (current ! j)" by (auto simp: find_Some_iff)
  then show ?thesis using Some by (simp add: placed_def)
qed

lemma length_replaced: "length (replaced current us) = length current"
  by (simp add: replaced_def)

lemma replaced_ids: "map msg_id (replaced current us) = map msg_id current"
  by (rule nth_equalityI) (simp_all add: replaced_def placed_id)

lemma replaced_Nil: "replaced current [] = current"
  by (rule nth_equalityI) (simp_all add: replaced_def placed_def)

lemma placed_snoc_matching:
  assumes tu: "truthy (msg_id u)"
    and p: "findIndex (\<lambda>m. msg_id m = msg_id u) current = Some p"
  shows "placed current (us @ [u]) j = (if j = p then u else placed current us j)"
proof -
  have pid: "msg_id (current ! p) = msg_id u"
    using findIndex_Some_lt [OF p] by simp
  show ?thesis
  proof (cases "msg_id (current ! j) = msg_id u")
    case True
    then have "findIndex (\<lambda>m. msg_id m = msg_id (current ! j)) current = Some p"
      using p by simp
    then show ?thesis using True tu by (auto simp: placed_def)
  next
    case False
    then have "j \<noteq> p" using pid by auto
    then show ?thesis using False by (simp add: placed_def)
  qed
qed

lemma placed_snoc_unmatched:
  assumes "\<not> (truthy (msg_id u) \<and> msg_id u \<in> set (map msg_id current))"
    and "j < length current"
  shows "placed current (us @ [u]) j = placed current us j"
proof (cases "msg_id u = msg_id (current ! j)")
  case True
  then have "msg_id u \<in> set (map msg_id current)"
    using assms(2) by (metis length_map nth_map nth_mem)
  then have "\<not> truthy (msg_id (current ! j))" using assms(1) True by simp
  then show ?thesis by (simp add: placed_def)
next
  case False
  then show ?thesis by (simp add: placed_def)
qed

lemma foldl_replace_step_closed:
  "foldl replace_step current us
   = replaced current us @ foldl replace_step [] (unmatched current us)"
proof (induction us rule: rev_induct)
  case Nil
  show ?case by (simp add: replaced_Nil unmatched_def)
next
  case (snoc u us)
  let ?P = "replaced current us"
  let ?T = "foldl replace_step [] (unmatched current us)"
  have IH: "foldl replace_step current us = ?P @ ?T" using snoc.IH .
  show ?case
  proof (cases "truthy (msg_id u) \<and> msg_id u \<in> set (map msg_id current)")
    case True
    then have tu: "truthy (msg_id u)" by simp
    from True findIndex_present [of "msg_id u" current]
    obtain p where p: "findIndex (\<lambda>m. msg_id m = msg_id u) current = Some p" by auto
    have plt: "p < length current" using findIndex_Some_lt [OF p] by simp
    have "findIndex (\<lambda>m. msg_id m = msg_id u) ?P = Some p"
      using findIndex_ids [OF replaced_ids, of "msg_id u" current us] p by simp
    then have "findIndex (\<lambda>m. msg_id m = msg_id u) (?P @ ?T) = Some p"
      by (rule findIndex_append_Some)
    then have st: "replace_step (?P @ ?T) u = ?P[p := u] @ ?T"
      using tu plt by (simp add: replace_step_def list_update_append1 length_replaced)
    have "?P[p := u] = replaced current (us @ [u])"
    proof (rule nth_equalityI)
      show "length (?P[p := u]) = length (replaced current (us @ [u]))"
        by (simp add: length_replaced)
    next
      fix j assume "j < length (?P[p := u])"
      then have j: "j < length current" by (simp add: length_replaced)
      then show "?P[p := u] ! j = replaced current (us @ [u]) ! j"
        using placed_snoc_matching [OF tu p, of us j]
        by (simp add: replaced_def nth_list_update)
    qed
    moreover have "unmatched current (us @ [u]) = unmatched current us"
      using True by (simp add: unmatched_def)
    ultimately show ?thesis using IH st by simp
  next
    case False
    have un: "unmatched current (us @ [u]) = unmatched current us @ [u]"
      using False by (simp add: unmatched_def)
    have same: "replaced current (us @ [u]) = ?P"
      by (rule nth_equalityI)
        (simp_all add: replaced_def placed_snoc_unmatched [OF False])
    have "replace_step (?P @ ?T) u = ?P @ replace_step ?T u"
    proof (cases "truthy (msg_id u)")
      case True
      then have "msg_id u \<notin> set (map msg_id ?P)"
        using False by (simp add: replaced_ids)
      then have "\<forall>x\<in>set ?P. msg_id x \<noteq> msg_id u" by (simp add: not_bearer)
      then show ?thesis using True by (simp add: replace_step_append_nomatch)
    next
      case False
      then show ?thesis by (simp add: replace_step_def)
    qed
    then show ?thesis using IH un same by simp
  qed
qed

lemma foldl_replace_step_fresh:
  "\<forall>u\<in>set fs. truthy (msg_id u) \<longrightarrow> msg_id u \<notin> msg_id ` set acc \<Longrightarrow>
   distinct (map msg_id (filter (\<lambda>u. truthy (msg_id u)) fs)) \<Longrightarrow>
   foldl replace_step acc fs = acc @ fs"
proof (induction fs arbitrary: acc)
  case Nil
  show ?case by simp
next
  case (Cons u fs)
  have push: "replace_step acc u = acc @ [u]"
  proof (cases "truthy (msg_id u)")
    case True
    then have "msg_id u \<notin> msg_id ` set acc" using Cons.prems(1) by simp
    then have "findIndex (\<lambda>m. msg_id m = msg_id u) acc = None"
      using not_bearer [of "msg_id u" acc] by (simp add: findIndex_None_iff)
    then show ?thesis by (simp add: replace_step_def)
  next
    case False
    then show ?thesis by (simp add: replace_step_def)
  qed
  have a: "\<forall>v\<in>set fs. truthy (msg_id v) \<longrightarrow> msg_id v \<notin> msg_id ` set (acc @ [u])"
  proof (intro ballI impI)
    fix v assume v: "v \<in> set fs" "truthy (msg_id v)"
    then have "msg_id v \<notin> msg_id ` set acc" using Cons.prems(1) by simp
    moreover have "msg_id v \<noteq> msg_id u"
    proof
      assume e: "msg_id v = msg_id u"
      then have "truthy (msg_id u)" using v(2) by simp
      then have "msg_id u \<notin> msg_id ` set (filter (\<lambda>u. truthy (msg_id u)) fs)"
        using Cons.prems(2) by simp
      moreover have "v \<in> set (filter (\<lambda>u. truthy (msg_id u)) fs)" using v by simp
      ultimately show False using e not_bearer by metis
    qed
    ultimately show "msg_id v \<notin> msg_id ` set (acc @ [u])" by auto
  qed
  have d: "distinct (map msg_id (filter (\<lambda>u. truthy (msg_id u)) fs))"
    using Cons.prems(2) by (simp split: if_splits)
  show ?case using Cons.IH [OF a d] push by simp
qed

lemma replaced_nth: "j < length current \<Longrightarrow> replaced current us ! j = placed current us j"
  by (simp add: replaced_def)

lemma find_Some_member: "List.find P xs = Some x \<Longrightarrow> x \<in> set xs \<and> P x"
  by (induction xs) (auto split: if_splits)

lemma replaced_only_match:
  assumes b: "msg_id b = Some i" "i \<noteq> []" and first: "\<forall>x\<in>set xs. msg_id x \<noteq> Some i"
    and m: "m' \<in> set us" "msg_id m' = Some i"
    and only: "\<forall>u\<in>set us. truthy (msg_id u) \<and> msg_id u \<in> set (map msg_id (xs @ b # ys))
                 \<longrightarrow> u = m'"
  shows "replaced (xs @ b # ys) us = xs @ m' # ys"
proof (rule nth_equalityI)
  show "length (replaced (xs @ b # ys) us) = length (xs @ m' # ys)"
    by (simp add: length_replaced)
next
  let ?c = "xs @ b # ys"
  fix j assume "j < length (replaced ?c us)"
  then have j: "j < length ?c" by (simp add: length_replaced)
  have fb: "findIndex (\<lambda>m. msg_id m = Some i) ?c = Some (length xs)"
    using first b by (simp add: findIndex_first)
  have bearer: "u = m'" if "u \<in> set us" "msg_id u = msg_id (?c ! j)" "truthy (msg_id (?c ! j))"
    for u
  proof -
    have "msg_id u \<in> set (map msg_id ?c)"
      using that(2) j by (metis length_map nth_map nth_mem)
    then show ?thesis using only that by simp
  qed
  show "replaced ?c us ! j = (xs @ m' # ys) ! j"
  proof (cases "j = length xs")
    case True
    then have cj: "?c ! j = b" by simp
    have "\<exists>u. List.find (\<lambda>u. msg_id u = Some i) (rev us) = Some u"
      using m by (cases "List.find (\<lambda>u. msg_id u = Some i) (rev us)")
        (auto simp: find_None_iff)
    then obtain u where u: "List.find (\<lambda>u. msg_id u = Some i) (rev us) = Some u" by auto
    then have "u \<in> set us" "msg_id u = Some i"
      using find_Some_member [of "\<lambda>u. msg_id u = Some i" "rev us" u] by simp_all
    then have "u = m'" using bearer [of u] cj b by simp
    then have "placed ?c us (length xs) = m'"
      using u b fb by (simp add: placed_def)
    then show ?thesis
      using True j by (simp add: replaced_nth)
  next
    case False
    have none: "List.find (\<lambda>u. msg_id u = msg_id (?c ! j)) (rev us) = None"
      if t: "truthy (msg_id (?c ! j))"
        and fi: "findIndex (\<lambda>m. msg_id m = msg_id (?c ! j)) ?c = Some j"
    proof (rule ccontr)
      assume "List.find (\<lambda>u. msg_id u = msg_id (?c ! j)) (rev us) \<noteq> None"
      then obtain u where "List.find (\<lambda>u. msg_id u = msg_id (?c ! j)) (rev us) = Some u"
        by auto
      then have "u \<in> set us" "msg_id u = msg_id (?c ! j)"
        using find_Some_member [of "\<lambda>u. msg_id u = msg_id (?c ! j)" "rev us" u] by simp_all
      then have "u = m'" using bearer t by simp
      then have "msg_id (?c ! j) = Some i" using \<open>msg_id u = msg_id (?c ! j)\<close> m by simp
      then show False using fi fb False by simp
    qed
    have "placed ?c us j = ?c ! j"
      using none by (auto simp: placed_def)
    moreover have "?c ! j = (xs @ m' # ys) ! j"
      using False by (simp add: nth_append nth_Cons split: nat.splits)
    ultimately show ?thesis using j by (simp add: replaced_nth)
  qed
qed

text \<open>
  Claim C1, as amended. For every update of the replacing reducer, and for every
  update without tombstone of the removing reducer: let the update contain a message
  \<open>m'\<close> whose non-empty identifier is first borne by the message \<open>b\<close> of the current
  list \<open>xs @ b # ys\<close>, and let \<open>m'\<close> be the only message of the update that bears an
  identifier of the current list. Then \<open>m'\<close> takes the place of \<open>b\<close>, every other
  message of the current list stays where it is, and the rest of the update follows:
  the result is \<open>xs @ m' # ys\<close> followed by the merge of the unmatched update messages
  among themselves; when \<open>m'\<close> is the whole update the result is \<open>xs @ m' # ys\<close>.
  In general the result is the current list, position by position, where the first
  bearer of a non-empty identifier is replaced by the last update message that bears
  it and every other position is unchanged, followed by the merge of the unmatched
  update messages among themselves.
\<close>

theorem replace_in_place:
  assumes "msg_id b = Some i" "i \<noteq> []" "\<forall>x\<in>set xs. msg_id x \<noteq> Some i"
    and "m' \<in> set (messagesToAdd upd)" "msg_id m' = Some i"
    and "\<forall>u\<in>set (messagesToAdd upd).
           truthy (msg_id u) \<and> msg_id u \<in> set (map msg_id (xs @ b # ys)) \<longrightarrow> u = m'"
  shows "addMessages_reducers (xs @ b # ys) upd
           = xs @ m' # ys
             @ addMessages_reducers [] (Many (unmatched (xs @ b # ys) (messagesToAdd upd)))
       \<and> ((\<forall>u\<in>set (messagesToAdd upd). \<not> is_remove u) \<longrightarrow>
            addMessages_summarization (xs @ b # ys) upd
              = xs @ m' # ys
                @ addMessages_summarization []
                    (Many (unmatched (xs @ b # ys) (messagesToAdd upd))))
       \<and> addMessages_reducers (xs @ b # ys) (Single m') = xs @ m' # ys
       \<and> (\<not> is_remove m' \<longrightarrow>
            addMessages_summarization (xs @ b # ys) (Single m') = xs @ m' # ys)
       \<and> addMessages_reducers current other
           = replaced current (messagesToAdd other)
             @ addMessages_reducers [] (Many (unmatched current (messagesToAdd other)))
       \<and> ((\<forall>u\<in>set (messagesToAdd other). \<not> is_remove u) \<longrightarrow>
            addMessages_summarization current other
              = replaced current (messagesToAdd other)
                @ addMessages_summarization []
                    (Many (unmatched current (messagesToAdd other))))"
proof -
  have general: "addMessages_reducers cur u
           = replaced cur (messagesToAdd u)
             @ addMessages_reducers [] (Many (unmatched cur (messagesToAdd u)))" for cur u
    using foldl_replace_step_closed [of cur "messagesToAdd u"]
    by (simp add: addMessages_reducers_def)
  have removing: "addMessages_summarization cur u
           = replaced cur (messagesToAdd u)
             @ addMessages_summarization [] (Many (unmatched cur (messagesToAdd u)))"
    if "\<forall>v\<in>set (messagesToAdd u). \<not> is_remove v" for cur u
  proof -
    have "\<forall>v\<in>set (unmatched cur (messagesToAdd u)). \<not> is_remove v"
      using that by (simp add: unmatched_def)
    then show ?thesis
      using that general [of cur u]
      by (simp add: addMessages_reducers_def addMessages_summarization_def
          foldl_remove_step_no_tombstone)
  qed
  have place: "replaced (xs @ b # ys) (messagesToAdd upd) = xs @ m' # ys"
    using assms by (rule replaced_only_match)
  have a: "addMessages_reducers (xs @ b # ys) upd
           = xs @ m' # ys
             @ addMessages_reducers [] (Many (unmatched (xs @ b # ys) (messagesToAdd upd)))"
    using general [of "xs @ b # ys" upd] place by simp
  have b: "(\<forall>u\<in>set (messagesToAdd upd). \<not> is_remove u) \<longrightarrow>
            addMessages_summarization (xs @ b # ys) upd
              = xs @ m' # ys
                @ addMessages_summarization []
                    (Many (unmatched (xs @ b # ys) (messagesToAdd upd)))"
    using removing [of upd "xs @ b # ys"] place by simp
  have c: "addMessages_reducers (xs @ b # ys) (Single m') = xs @ m' # ys"
    using replace_step_first [OF assms(5,2,1,3)] by (simp add: addMessages_reducers_def)
  have d: "\<not> is_remove m' \<longrightarrow>
            addMessages_summarization (xs @ b # ys) (Single m') = xs @ m' # ys"
    using remove_step_first [OF _ assms(5,2,1,3)]
    by (simp add: addMessages_summarization_def)
  have e: "(\<forall>u\<in>set (messagesToAdd other). \<not> is_remove u) \<longrightarrow>
            addMessages_summarization current other
              = replaced current (messagesToAdd other)
                @ addMessages_summarization []
                    (Many (unmatched current (messagesToAdd other)))"
    using removing [of other current] by simp
  from a b c d general [of current other] e show ?thesis by blast
qed

text \<open>The example of the claim inside a longer update: \<open>[A, B, C]\<close> and the update
  \<open>[X, B', Y]\<close>, where \<open>B'\<close> has the identifier of \<open>B\<close> and \<open>X\<close>, \<open>Y\<close> are new, give
  \<open>[A, B', C, X, Y]\<close> in both reducers.\<close>

theorem replace_in_place_witness:
  "addMessages_reducers
     [Msg AI (Some ''1'') (Text ''a''), Msg Human (Some ''2'') (Text ''b''),
      Msg AI (Some ''3'') (Text ''c'')]
     (Many [Msg AI (Some ''9'') (Text ''x''), Msg Human (Some ''2'') (Text ''b2''),
            Msg Human None (Text ''y'')])
   = [Msg AI (Some ''1'') (Text ''a''), Msg Human (Some ''2'') (Text ''b2''),
      Msg AI (Some ''3'') (Text ''c''), Msg AI (Some ''9'') (Text ''x''),
      Msg Human None (Text ''y'')]
   \<and> addMessages_summarization
     [Msg AI (Some ''1'') (Text ''a''), Msg Human (Some ''2'') (Text ''b''),
      Msg AI (Some ''3'') (Text ''c'')]
     (Many [Msg AI (Some ''9'') (Text ''x''), Msg Human (Some ''2'') (Text ''b2''),
            Msg Human None (Text ''y'')])
   = [Msg AI (Some ''1'') (Text ''a''), Msg Human (Some ''2'') (Text ''b2''),
      Msg AI (Some ''3'') (Text ''c''), Msg AI (Some ''9'') (Text ''x''),
      Msg Human None (Text ''y'')]
   \<and> addMessages_reducers
     [Msg AI (Some ''1'') (Text ''a''), Msg Human (Some ''2'') (Text ''b''),
      Msg AI (Some ''3'') (Text ''c'')]
     (Single (Msg Human (Some ''2'') (Text ''b2'')))
   = [Msg AI (Some ''1'') (Text ''a''), Msg Human (Some ''2'') (Text ''b2''),
      Msg AI (Some ''3'') (Text ''c'')]"
  using replace_in_place [of "Msg Human (Some ''2'') (Text ''b'')" "''2''"
      "[Msg AI (Some ''1'') (Text ''a'')]" "Msg Human (Some ''2'') (Text ''b2'')"
      "Many [Msg AI (Some ''9'') (Text ''x''), Msg Human (Some ''2'') (Text ''b2''),
            Msg Human None (Text ''y'')]"
      "[Msg AI (Some ''3'') (Text ''c'')]"
      "[Msg AI (Some ''1'') (Text ''a''), Msg Human (Some ''2'') (Text ''b''),
        Msg AI (Some ''3'') (Text ''c'')]"
      "Many [Msg AI (Some ''9'') (Text ''x''), Msg Human (Some ''2'') (Text ''b2''),
            Msg Human None (Text ''y'')]"]
  by (simp add: unmatched_def addMessages_reducers_def addMessages_summarization_def
      replace_step_def remove_step_def)

text \<open>
  The claim as stated fails in the removing reducer: the update
  \<open>[RemoveMessage 2, B']\<close> contains \<open>B'\<close>, which bears the identifier of \<open>B\<close>, and
  \<open>[A, B, C]\<close> becomes \<open>[A, C, B']\<close>, because the tombstone has removed \<open>B\<close> before
  \<open>B'\<close> is looked up. It also fails in the replacing reducer when \<open>B\<close> is not the
  first message that bears its identifier: with \<open>A\<close> and \<open>B\<close> both identified by 1,
  \<open>B'\<close> takes the place of \<open>A\<close>.
\<close>

theorem replace_in_place_counterexample:
  "addMessages_summarization
     [Msg AI (Some ''1'') (Text ''a''), Msg Human (Some ''2'') (Text ''b''),
      Msg AI (Some ''3'') (Text ''c'')]
     (Many [RemoveMessage ''2'', Msg Human (Some ''2'') (Text ''b2'')])
   = [Msg AI (Some ''1'') (Text ''a''), Msg AI (Some ''3'') (Text ''c''),
      Msg Human (Some ''2'') (Text ''b2'')]
   \<and> addMessages_reducers
     [Msg AI (Some ''1'') (Text ''a''), Msg Human (Some ''1'') (Text ''b''),
      Msg AI (Some ''3'') (Text ''c'')]
     (Single (Msg Human (Some ''1'') (Text ''b2'')))
   = [Msg Human (Some ''1'') (Text ''b2''), Msg Human (Some ''1'') (Text ''b''),
      Msg AI (Some ''3'') (Text ''c'')]"
  by (simp add: addMessages_summarization_def remove_step_def addMessages_reducers_def
      replace_step_def)

section \<open>Tombstones that match nothing\<close>

lemma remove_step_nomatch:
  "\<forall>m\<in>set res. msg_id m \<noteq> Some t \<Longrightarrow> remove_step res (RemoveMessage t) = res"
  by (simp add: remove_step_def findIndex_None_iff[THEN iffD2])

lemma foldl_remove_nomatch:
  "\<forall>t\<in>set ts. \<forall>m\<in>set res. msg_id m \<noteq> Some t \<Longrightarrow>
   foldl remove_step res (map RemoveMessage ts) = res"
  by (induction ts) (simp_all add: remove_step_nomatch)

lemma removeMessages_anonymous:
  assumes "\<forall>m\<in>set msgs. msg_id m = None"
  shows "removeMessages msgs = map RemoveMessage (replicate (length msgs - 2) [])"
proof -
  have "\<forall>m\<in>set (messagesToRemove msgs). msg_id m = None"
    using assms set_take_subset [of "length msgs - 2" msgs]
    by (auto simp: messagesToRemove_def)
  then have "removeMessages msgs = map (\<lambda>m. RemoveMessage []) (messagesToRemove msgs)"
    by (simp add: removeMessages_def)
  also have "\<dots> = map RemoveMessage (replicate (length msgs - 2) [])"
    by (simp add: messagesToRemove_def map_replicate_const)
  finally show ?thesis .
qed

text \<open>
  Claim C10, as amended. A tombstone whose identifier equals the identifier of no
  message of the current list leaves the list as it is, alone or among other such
  tombstones; the reducer has no failing path, it always returns a list. Tombstones with
  the empty identifier remove nothing from a list in which no message has the empty
  string as its identifier; in particular the tombstones \<open>summarize_conversation\<close>
  builds for a list of messages whose identifier is undefined leave that list as it is.
\<close>

theorem unmatched_tombstone_noop:
  "((\<forall>m\<in>set current. msg_id m \<noteq> Some t) \<longrightarrow>
       addMessages_summarization current (Single (RemoveMessage t)) = current)
   \<and> ((\<forall>t\<in>set ts. \<forall>m\<in>set current. msg_id m \<noteq> Some t) \<longrightarrow>
       addMessages_summarization current (Many (map RemoveMessage ts)) = current)
   \<and> ((\<forall>m\<in>set current. msg_id m \<noteq> Some []) \<longrightarrow>
       addMessages_summarization current (Many (replicate n (RemoveMessage []))) = current)
   \<and> ((\<forall>m\<in>set msgs. msg_id m = None) \<longrightarrow>
       addMessages_summarization msgs (Many (removeMessages msgs)) = msgs)"
proof -
  have a: "(\<forall>m\<in>set current. msg_id m \<noteq> Some t) \<longrightarrow>
       addMessages_summarization current (Single (RemoveMessage t)) = current"
    by (simp add: addMessages_summarization_def remove_step_nomatch)
  have b: "\<And>cur ts. (\<forall>t\<in>set ts. \<forall>m\<in>set cur. msg_id m \<noteq> Some t) \<longrightarrow>
       addMessages_summarization cur (Many (map RemoveMessage ts)) = cur"
    by (simp add: addMessages_summarization_def foldl_remove_nomatch)
  have c: "(\<forall>m\<in>set current. msg_id m \<noteq> Some []) \<longrightarrow>
       addMessages_summarization current (Many (replicate n (RemoveMessage []))) = current"
    using b [of "replicate n []" current] by (simp add: map_replicate)
  have d: "(\<forall>m\<in>set msgs. msg_id m = None) \<longrightarrow>
       addMessages_summarization msgs (Many (removeMessages msgs)) = msgs"
    using b [of "replicate (length msgs - 2) []" msgs]
    by (auto simp: removeMessages_anonymous)
  from a b [of ts current] c d show ?thesis by blast
qed

text \<open>Three messages without identifier: \<open>summarize_conversation\<close> builds one tombstone
  with the empty identifier, and merging it changes nothing. A list with the
  identifiers 1 and none: the tombstones 2 and 3 and two tombstones with the empty
  identifier change nothing.\<close>

theorem unmatched_tombstone_noop_witness:
  "addMessages_summarization
     [Msg Human None (Text ''a''), Msg Human None (Text ''b''), Msg Human None (Text ''c'')]
     (Many (removeMessages
        [Msg Human None (Text ''a''), Msg Human None (Text ''b''), Msg Human None (Text ''c'')]))
   = [Msg Human None (Text ''a''), Msg Human None (Text ''b''), Msg Human None (Text ''c'')]
   \<and> removeMessages
        [Msg Human None (Text ''a''), Msg Human None (Text ''b''), Msg Human None (Text ''c'')]
     = [RemoveMessage []]
   \<and> addMessages_summarization
        [Msg AI (Some ''1'') (Text ''a''), Msg Human None (Text ''b'')]
        (Single (RemoveMessage ''2''))
     = [Msg AI (Some ''1'') (Text ''a''), Msg Human None (Text ''b'')]
   \<and> addMessages_summarization
        [Msg AI (Some ''1'') (Text ''a''), Msg Human None (Text ''b'')]
        (Many [RemoveMessage ''2'', RemoveMessage ''3''])
     = [Msg AI (Some ''1'') (Text ''a''), Msg Human None (Text ''b'')]
   \<and> addMessages_summarization
        [Msg AI (Some ''1'') (Text ''a''), Msg Human None (Text ''b'')]
        (Many [RemoveMessage [], RemoveMessage []])
     = [Msg AI (Some ''1'') (Text ''a''), Msg Human None (Text ''b'')]"
  using unmatched_tombstone_noop [of
     "[Msg AI (Some ''1'') (Text ''a''), Msg Human None (Text ''b'')]" "''2''"
     "[''2'', ''3'']" 2
     "[Msg Human None (Text ''a''), Msg Human None (Text ''b''), Msg Human None (Text ''c'')]"]
  by (simp add: removeMessages_def messagesToRemove_def numeral_2_eq_2)

text \<open>
  The claim as stated fails when a message has the empty string as its identifier:
  \<open>m.id || ""\<close> gives it the tombstone with the empty identifier, \<open>m.id === msg.id\<close>
  holds, and the tombstone removes it.
\<close>

theorem unmatched_tombstone_noop_counterexample:
  "removeMessages [Msg Human (Some []) (Text ''a''), Msg Human None (Text ''b''),
                   Msg Human None (Text ''c'')] = [RemoveMessage []]
   \<and> addMessages_summarization
       [Msg Human (Some []) (Text ''a''), Msg Human None (Text ''b''),
        Msg Human None (Text ''c'')]
       (Many [RemoveMessage []])
     = [Msg Human None (Text ''b''), Msg Human None (Text ''c'')]"
  by (simp add: removeMessages_def messagesToRemove_def addMessages_summarization_def
      remove_step_def)

section \<open>Replay\<close>

text \<open>
  The replacing step on a list: a later message with the same identifier overwrites an
  earlier one, steps on different identifiers commute as soon as one of the identifiers
  is present, and a step that changes nothing keeps changing nothing after steps on
  other identifiers.
\<close>

lemma replace_step_found:
  "truthy (msg_id u) \<Longrightarrow> findIndex (\<lambda>x. msg_id x = msg_id u) res = Some i \<Longrightarrow>
   replace_step res u = res[i := u]"
  by (simp add: replace_step_def)

lemma replace_step_absent:
  "findIndex (\<lambda>x. msg_id x = msg_id u) res = None \<Longrightarrow> replace_step res u = res @ [u]"
  by (simp add: replace_step_def)

lemma replace_step_falsy:
  "\<not> truthy (msg_id u) \<Longrightarrow> replace_step res u = res @ [u]"
  by (simp add: replace_step_def)

lemma replace_step_overwrite:
  assumes "truthy (msg_id u)" "msg_id u = msg_id v"
  shows "replace_step (replace_step res u) v = replace_step res v"
proof (cases "findIndex (\<lambda>x. msg_id x = msg_id u) res")
  case None
  then have "findIndex (\<lambda>x. msg_id x = msg_id v) (res @ [u]) = Some (length res)"
    using assms findIndex_snoc_None [of "\<lambda>x. msg_id x = msg_id v" res u] by simp
  then show ?thesis using None assms by (simp add: replace_step_def)
next
  case (Some i)
  then have i: "i < length res" "msg_id (res ! i) = msg_id u"
    using findIndex_Some_lt [of "\<lambda>x. msg_id x = msg_id u" res i] by auto
  have "findIndex (\<lambda>x. msg_id x = msg_id v) (res[i := u]) = Some i"
    using findIndex_update_same [of i res "\<lambda>x. msg_id x = msg_id v" u] i Some assms by simp
  then show ?thesis using Some assms by (simp add: replace_step_def)
qed

lemma replace_step_commute:
  assumes tu: "truthy (msg_id u)" and ne: "msg_id u \<noteq> msg_id v"
    and pu: "findIndex (\<lambda>x. msg_id x = msg_id u) res = Some i"
  shows "replace_step (replace_step res v) u = replace_step (replace_step res u) v"
proof -
  have i: "i < length res" "msg_id (res ! i) = msg_id u"
    using findIndex_Some_lt [OF pu] by auto
  have ru: "replace_step res u = res[i := u]" using tu pu by (rule replace_step_found)
  show ?thesis
  proof (cases "truthy (msg_id v) \<and> findIndex (\<lambda>x. msg_id x = msg_id v) res \<noteq> None")
    case True
    then obtain j where j: "findIndex (\<lambda>x. msg_id x = msg_id v) res = Some j" by auto
    then have j': "j < length res" "msg_id (res ! j) = msg_id v"
      using findIndex_Some_lt [of "\<lambda>x. msg_id x = msg_id v" res j] by auto
    have ij: "i \<noteq> j" using i j' ne by auto
    have rv: "replace_step res v = res[j := v]" using True j by (simp add: replace_step_def)
    have "findIndex (\<lambda>x. msg_id x = msg_id u) (res[j := v]) = Some i"
      using findIndex_update_same [of j res "\<lambda>x. msg_id x = msg_id u" v] j' ne pu by auto
    then have l: "replace_step (res[j := v]) u = res[j := v, i := u]"
      using tu by (simp add: replace_step_def)
    have "findIndex (\<lambda>x. msg_id x = msg_id v) (res[i := u]) = Some j"
      using findIndex_update_same [of i res "\<lambda>x. msg_id x = msg_id v" u] i ne j by auto
    then have r: "replace_step (res[i := u]) v = res[i := u, j := v]"
      using True by (simp add: replace_step_def)
    show ?thesis using l r ru rv ij by (simp add: list_update_swap)
  next
    case False
    then have rv: "replace_step res v = res @ [v]"
      by (auto simp: replace_step_def)
    have "findIndex (\<lambda>x. msg_id x = msg_id u) (res @ [v]) = Some i"
      using pu by (rule findIndex_append_Some)
    then have l: "replace_step (res @ [v]) u = res[i := u] @ [v]"
      using tu i by (simp add: replace_step_def list_update_append1)
    have "findIndex (\<lambda>x. msg_id x = msg_id v) (res[i := u]) = findIndex (\<lambda>x. msg_id x = msg_id v) res"
      using findIndex_update_same [of i res "\<lambda>x. msg_id x = msg_id v" u] i ne by auto
    then have r: "replace_step (res[i := u]) v = res[i := u] @ [v]"
      using False by (auto simp: replace_step_def)
    show ?thesis using l r ru rv by simp
  qed
qed

text \<open>An identifier that is present stays present.\<close>

lemma replace_step_present:
  assumes "k \<in> msg_id ` set res"
  shows "k \<in> msg_id ` set (replace_step res v)"
proof -
  have "map msg_id (take (length res) (replace_step res v)) = map msg_id res"
    using replace_step_ids [of "length res" res v] by simp
  then have "k \<in> set (map msg_id (take (length res) (replace_step res v)))"
    using assms by auto
  then show ?thesis
    using set_take_subset [of "length res" "replace_step res v"] by auto
qed

lemma foldl_replace_step_present:
  "k \<in> msg_id ` set res \<Longrightarrow> k \<in> msg_id ` set (foldl replace_step res vs)"
proof (induction vs arbitrary: res)
  case Nil
  then show ?case by simp
next
  case (Cons v vs)
  then show ?case using replace_step_present [of k res v] by simp
qed

lemma replace_step_makes_present:
  assumes "truthy (msg_id u)"
  shows "msg_id u \<in> msg_id ` set (replace_step res u)"
proof (cases "findIndex (\<lambda>x. msg_id x = msg_id u) res")
  case None
  then show ?thesis by (simp add: replace_step_absent)
next
  case (Some i)
  then have "i < length res"
    using findIndex_Some_lt [of "\<lambda>x. msg_id x = msg_id u" res i] by simp
  then have "u \<in> set (res[i := u])" by (rule set_update_memI)
  then show ?thesis using Some assms by (auto simp: replace_step_def)
qed

lemma replace_step_absorbed:
  assumes "truthy (msg_id u)" "msg_id u \<in> msg_id ` set res"
    "msg_id u \<in> msg_id ` set vs"
  shows "foldl replace_step (replace_step res u) vs = foldl replace_step res vs"
  using assms
proof (induction vs arbitrary: res)
  case Nil
  then show ?case by simp
next
  case (Cons v vs)
  show ?case
  proof (cases "msg_id u = msg_id v")
    case True
    then show ?thesis using Cons.prems(1) by (simp add: replace_step_overwrite)
  next
    case False
    then have in_vs: "msg_id u \<in> msg_id ` set vs" using Cons.prems(3) by auto
    from findIndex_present [OF Cons.prems(2)]
    obtain i where i: "findIndex (\<lambda>x. msg_id x = msg_id u) res = Some i" by auto
    have sw: "replace_step (replace_step res u) v = replace_step (replace_step res v) u"
      using replace_step_commute [OF Cons.prems(1) False i] by simp
    have pres: "msg_id u \<in> msg_id ` set (replace_step res v)"
      using Cons.prems(2) by (rule replace_step_present)
    show ?thesis
      using Cons.IH [OF Cons.prems(1) pres in_vs] sw by simp
  qed
qed

lemma replace_step_fixed_kept:
  assumes tu: "truthy (msg_id u)" and fx: "replace_step res u = res"
    and ne: "msg_id u \<noteq> msg_id v"
  shows "replace_step (replace_step res v) u = replace_step res v"
proof -
  have "msg_id u \<in> msg_id ` set res"
    using replace_step_makes_present [OF tu, of res] fx by simp
  from findIndex_present [OF this]
  obtain i where "findIndex (\<lambda>x. msg_id x = msg_id u) res = Some i" by auto
  from replace_step_commute [OF tu ne this] fx show ?thesis by simp
qed

lemma foldl_replace_step_fixed:
  "truthy (msg_id u) \<Longrightarrow> replace_step res u = res \<Longrightarrow> msg_id u \<notin> msg_id ` set vs \<Longrightarrow>
   replace_step (foldl replace_step res vs) u = foldl replace_step res vs"
proof (induction vs arbitrary: res)
  case Nil
  then show ?case by simp
next
  case (Cons v vs)
  have ne: "msg_id u \<noteq> msg_id v" using Cons.prems(3) by auto
  have "replace_step (replace_step res v) u = replace_step res v"
    using replace_step_fixed_kept [OF Cons.prems(1,2) ne] .
  then show ?case using Cons.IH [of "replace_step res v"] Cons.prems by simp
qed

lemma foldl_replace_step_idem:
  "\<forall>u\<in>set us. truthy (msg_id u) \<Longrightarrow>
   foldl replace_step (foldl replace_step res us) us = foldl replace_step res us"
proof (induction us arbitrary: res)
  case Nil
  then show ?case by simp
next
  case (Cons v vs)
  let ?R = "foldl replace_step (replace_step res v) vs"
  have tv: "truthy (msg_id v)" using Cons.prems by simp
  have IH: "foldl replace_step ?R vs = ?R" using Cons.IH [of "replace_step res v"] Cons.prems by simp
  have "foldl replace_step (replace_step ?R v) vs = foldl replace_step ?R vs"
  proof (cases "msg_id v \<in> msg_id ` set vs")
    case True
    have "msg_id v \<in> msg_id ` set ?R"
      using replace_step_makes_present [OF tv] by (rule foldl_replace_step_present)
    then show ?thesis using replace_step_absorbed [OF tv _ True] by simp
  next
    case False
    have "replace_step (replace_step res v) v = replace_step res v"
      using tv by (simp add: replace_step_overwrite)
    then have "replace_step ?R v = ?R"
      using foldl_replace_step_fixed [OF tv _ False] by simp
    then show ?thesis by simp
  qed
  then show ?case using IH by simp
qed

section \<open>The closed form of the message-list merge\<close>

lemma splice_single_bearer:
  "length (filter P xs) \<le> 1 \<Longrightarrow>
   (case findIndex P xs of Some i \<Rightarrow> take i xs @ drop (Suc i) xs | None \<Rightarrow> xs)
   = filter (\<lambda>x. \<not> P x) xs"
proof (induction xs)
  case Nil
  show ?case by simp
next
  case (Cons x xs)
  show ?case
  proof (cases "P x")
    case True
    then have "filter P xs = []" using Cons.prems by simp
    then have "filter (\<lambda>x. \<not> P x) xs = xs"
      by (simp add: filter_empty_conv filter_id_conv)
    then show ?thesis using True by simp
  next
    case False
    then have "length (filter P xs) \<le> 1" using Cons.prems by simp
    from Cons.IH [OF this] False show ?thesis
      by (cases "findIndex P xs") simp_all
  qed
qed

lemma remove_step_tombstone_filter:
  assumes "length (filter (\<lambda>m. msg_id m = Some t) res) \<le> 1"
  shows "remove_step res (RemoveMessage t) = filter (\<lambda>m. msg_id m \<noteq> Some t) res"
  using splice_single_bearer [OF assms] by (simp add: remove_step_def)

lemma replace_step_filter:
  assumes "msg_id u \<notin> T"
  shows "replace_step (filter (\<lambda>m. msg_id m \<notin> T) vs) u
         = filter (\<lambda>m. msg_id m \<notin> T) (replace_step vs u)"
proof (cases "truthy (msg_id u)")
  case False
  then show ?thesis using assms by (simp add: replace_step_def)
next
  case True
  show ?thesis
  proof (induction vs)
    case Nil
    show ?case using assms by (simp add: replace_step_def)
  next
    case (Cons v vs)
    show ?case
    proof (cases "msg_id v = msg_id u")
      case same: True
      then show ?thesis using assms True by (simp add: replace_step_Cons)
    next
      case False
      then show ?thesis using Cons.IH assms True by (simp add: replace_step_Cons)
    qed
  qed
qed

lemma foldl_replace_step_filter:
  "\<forall>u\<in>set ms. msg_id u \<notin> T \<Longrightarrow>
   foldl replace_step (filter (\<lambda>m. msg_id m \<notin> T) vs) ms
   = filter (\<lambda>m. msg_id m \<notin> T) (foldl replace_step vs ms)"
proof (induction ms arbitrary: vs)
  case Nil
  show ?case by simp
next
  case (Cons u ms)
  then show ?case using Cons.IH [of "replace_step vs u"]
    by (simp add: replace_step_filter)
qed

lemma replace_step_bearers:
  assumes "msg_id u \<noteq> k"
  shows "length (filter (\<lambda>m. msg_id m = k) (replace_step vs u))
         = length (filter (\<lambda>m. msg_id m = k) vs)"
proof (cases "truthy (msg_id u)")
  case False
  then show ?thesis using assms by (simp add: replace_step_def)
next
  case True
  show ?thesis
  proof (induction vs)
    case Nil
    show ?case using assms by (simp add: replace_step_def)
  next
    case (Cons v vs)
    then show ?case using assms True by (auto simp: replace_step_Cons)
  qed
qed

lemma foldl_replace_step_bearers:
  "\<forall>u\<in>set ms. msg_id u \<noteq> k \<Longrightarrow>
   length (filter (\<lambda>m. msg_id m = k) (foldl replace_step vs ms))
   = length (filter (\<lambda>m. msg_id m = k) vs)"
proof (induction ms arbitrary: vs)
  case Nil
  show ?case by simp
next
  case (Cons u ms)
  then show ?case using Cons.IH [of "replace_step vs u"]
    by (simp add: replace_step_bearers)
qed

lemma tombstones_apart_snoc:
  "tombstones_apart (us @ [u]) \<Longrightarrow> tombstones_apart us"
  by (simp add: tombstones_apart_def)

lemma single_bearer_snoc:
  "single_bearer current (us @ [u]) \<Longrightarrow> single_bearer current us"
  by (simp add: single_bearer_def)

text \<open>Tombstones act as a filter on what the replacing reducer builds from the other
  messages of the update.\<close>

lemma foldl_remove_step_normal_form:
  "tombstones_apart us \<Longrightarrow> single_bearer current us \<Longrightarrow>
   foldl remove_step current us
   = filter (\<lambda>m. msg_id m \<notin> set (map msg_id (filter is_remove us)))
       (foldl replace_step current (filter (\<lambda>u. \<not> is_remove u) us))"
proof (induction us rule: rev_induct)
  case Nil
  show ?case by simp
next
  case (snoc u us)
  let ?M = "filter (\<lambda>u. \<not> is_remove u) us"
  let ?T = "set (map msg_id (filter is_remove us))"
  let ?V = "foldl replace_step current ?M"
  have IH: "foldl remove_step current us = filter (\<lambda>m. msg_id m \<notin> ?T) ?V"
    using snoc.IH tombstones_apart_snoc [OF snoc.prems(1)]
      single_bearer_snoc [OF snoc.prems(2)] by simp
  show ?case
  proof (cases u)
    case (RemoveMessage t)
    have apart: "\<forall>v\<in>set ?M. msg_id v \<noteq> Some t"
      using snoc.prems(1) RemoveMessage by (auto simp: tombstones_apart_def)
    have "length (filter (\<lambda>m. msg_id m = Some t) ?V)
          = length (filter (\<lambda>m. msg_id m = Some t) current)"
      using apart by (rule foldl_replace_step_bearers)
    also have "\<dots> \<le> 1"
      using snoc.prems(2) RemoveMessage by (simp add: single_bearer_def)
    finally have one: "length (filter (\<lambda>m. msg_id m = Some t) ?V) \<le> 1" .
    have "length (filter (\<lambda>m. msg_id m = Some t) (filter (\<lambda>m. msg_id m \<notin> ?T) ?V))
          \<le> length (filter (\<lambda>m. msg_id m = Some t) ?V)"
      by (simp add: conj_commute) (rule length_filter_le [of _ "filter _ _", simplified])
    then have "length (filter (\<lambda>m. msg_id m = Some t) (filter (\<lambda>m. msg_id m \<notin> ?T) ?V)) \<le> 1"
      using one by simp
    then have "remove_step (filter (\<lambda>m. msg_id m \<notin> ?T) ?V) (RemoveMessage t)
          = filter (\<lambda>m. msg_id m \<noteq> Some t) (filter (\<lambda>m. msg_id m \<notin> ?T) ?V)"
      by (rule remove_step_tombstone_filter)
    then show ?thesis using IH RemoveMessage by (auto intro: filter_cong)
  next
    case (Msg r i c)
    then have nr: "\<not> is_remove u" by simp
    have out: "msg_id u \<notin> ?T"
    proof
      assume "msg_id u \<in> ?T"
      then obtain t where "t \<in> set us" "is_remove t" "msg_id t = msg_id u" by auto
      then show False using snoc.prems(1) nr by (auto simp: tombstones_apart_def)
    qed
    have "remove_step (filter (\<lambda>m. msg_id m \<notin> ?T) ?V) u
          = replace_step (filter (\<lambda>m. msg_id m \<notin> ?T) ?V) u"
      using nr by (rule remove_step_no_tombstone)
    also have "\<dots> = filter (\<lambda>m. msg_id m \<notin> ?T) (replace_step ?V u)"
      using out by (rule replace_step_filter)
    finally show ?thesis using IH nr by simp
  qed
qed

lemma tombstones_apartD:
  "tombstones_apart us \<Longrightarrow> t \<in> set us \<Longrightarrow> is_remove t \<Longrightarrow> u \<in> set us \<Longrightarrow> \<not> is_remove u
   \<Longrightarrow> msg_id t \<noteq> msg_id u"
  unfolding tombstones_apart_def by metis

lemma unmatched_messages:
  "unmatched current (filter (\<lambda>u. \<not> is_remove u) us) = appended current us"
  by (simp add: unmatched_def appended_def conj_commute)

lemma appended_fresh:
  assumes "fresh_distinct current us"
  shows "foldl replace_step [] (appended current us) = appended current us"
proof -
  have "filter (\<lambda>u. truthy (msg_id u)) (appended current us)
        = filter (\<lambda>u. \<not> is_remove u \<and> truthy (msg_id u)
                     \<and> msg_id u \<notin> set (map msg_id current)) us"
    unfolding appended_def by (auto intro: filter_cong)
  then have "distinct (map msg_id (filter (\<lambda>u. truthy (msg_id u)) (appended current us)))"
    using assms by (simp add: fresh_distinct_def)
  then show ?thesis
    using foldl_replace_step_fresh [of "appended current us" "[]"] by simp
qed

lemma appended_not_removed:
  assumes "tombstones_apart us" "a \<in> set (appended current us)"
  shows "msg_id a \<notin> set (map msg_id (filter is_remove us))"
proof
  assume "msg_id a \<in> set (map msg_id (filter is_remove us))"
  then obtain t where "t \<in> set us" "is_remove t" "msg_id t = msg_id a" by auto
  moreover have "a \<in> set us" "\<not> is_remove a" using assms(2) by (auto simp: appended_def)
  ultimately show False using tombstones_apartD [OF assms(1)] by metis
qed

lemma foldl_remove_step_kept_appended:
  assumes "tombstones_apart us" "single_bearer current us" "fresh_distinct current us"
  shows "foldl remove_step current us = kept current us @ appended current us"
proof -
  let ?M = "filter (\<lambda>u. \<not> is_remove u) us"
  let ?Q = "\<lambda>m. msg_id m \<notin> set (map msg_id (filter is_remove us))"
  have "foldl replace_step current ?M = replaced current ?M @ appended current us"
    using foldl_replace_step_closed [of current ?M] appended_fresh [OF assms(3)]
    by (simp add: unmatched_messages)
  moreover have "filter ?Q (appended current us) = appended current us"
    using appended_not_removed [OF assms(1)] by (simp add: filter_id_conv)
  ultimately have "filter ?Q (foldl replace_step current ?M)
        = kept current us @ appended current us"
    by (simp add: kept_def)
  then show ?thesis
    using foldl_remove_step_normal_form [OF assms(1,2)] by simp
qed

text \<open>
  Claim C2, as amended. Let no tombstone of the update share its identifier with a
  message of the update that is not a tombstone, let at most one existing message
  bear the identifier of each tombstone, and let the update's messages with a
  non-empty identifier that no existing message bears have pairwise distinct
  identifiers. Then the removing reducer returns the existing messages that no
  tombstone of the update matches, in their order (the first bearer of a non-empty
  identifier replaced in place by the last update message that bears it), followed by
  the update's messages that are no tombstone and whose identifier is undefined, empty
  or borne by no existing message, in the order supplied.
\<close>

theorem merge_closed_form:
  assumes "tombstones_apart (messagesToAdd upd)"
    and "single_bearer current (messagesToAdd upd)"
    and "fresh_distinct current (messagesToAdd upd)"
  shows "addMessages_summarization current upd
         = kept current (messagesToAdd upd) @ appended current (messagesToAdd upd)"
  using foldl_remove_step_kept_appended [OF assms]
  by (simp add: addMessages_summarization_def)

text \<open>An update that removes the third message, replaces the first, appends two new
  messages and carries a tombstone that matches nothing. And the kind of update
  \<open>summarize_conversation\<close> returns: several tombstones with the empty identifier
  and one that matches.\<close>

theorem merge_closed_form_witness:
  "addMessages_summarization
     [Msg AI (Some ''1'') (Text ''a''), Msg Human None (Text ''b''),
      Msg AI (Some ''3'') (Text ''c''), Msg Human (Some ''4'') (Text ''d'')]
     (Many [RemoveMessage ''3'', Msg Human (Some ''5'') (Text ''e''),
            Msg Human (Some ''1'') (Text ''a2''), Msg Human None (Text ''f''),
            RemoveMessage ''7''])
   = [Msg Human (Some ''1'') (Text ''a2''), Msg Human None (Text ''b''),
      Msg Human (Some ''4'') (Text ''d''), Msg Human (Some ''5'') (Text ''e''),
      Msg Human None (Text ''f'')]
   \<and> addMessages_summarization
     [Msg Human None (Text ''a''), Msg AI (Some ''r'') (Text ''b''),
      Msg Human None (Text ''c''), Msg AI (Some ''s'') (Text ''d'')]
     (Many [RemoveMessage [], RemoveMessage ''r'', RemoveMessage []])
   = [Msg Human None (Text ''a''), Msg Human None (Text ''c''),
      Msg AI (Some ''s'') (Text ''d'')]"
  using merge_closed_form [of
     "Many [RemoveMessage ''3'', Msg Human (Some ''5'') (Text ''e''),
            Msg Human (Some ''1'') (Text ''a2''), Msg Human None (Text ''f''),
            RemoveMessage ''7'']"
     "[Msg AI (Some ''1'') (Text ''a''), Msg Human None (Text ''b''),
      Msg AI (Some ''3'') (Text ''c''), Msg Human (Some ''4'') (Text ''d'')]"]
    merge_closed_form [of
     "Many [RemoveMessage [], RemoveMessage ''r'', RemoveMessage []]"
     "[Msg Human None (Text ''a''), Msg AI (Some ''r'') (Text ''b''),
      Msg Human None (Text ''c''), Msg AI (Some ''s'') (Text ''d'')]"]
  by (simp add: tombstones_apart_def single_bearer_def fresh_distinct_def
      kept_def appended_def replaced_def placed_def upt_rec)

text \<open>
  The claim as stated fails. Two update messages share the identifier 9, which no
  existing message bears: the second replaces the first instead of being appended
  behind it. A tombstone removes only the first of two existing messages that bear
  its identifier. And a tombstone removes the update's own message that bears its
  identifier and was appended before it.
\<close>

theorem merge_closed_form_counterexample:
  "addMessages_summarization []
     (Many [Msg Human (Some ''9'') (Text ''x''), Msg Human (Some ''9'') (Text ''y'')])
   = [Msg Human (Some ''9'') (Text ''y'')]
   \<and> addMessages_summarization
       [Msg Human (Some ''1'') (Text ''a''), Msg AI (Some ''1'') (Text ''b'')]
       (Single (RemoveMessage ''1''))
     = [Msg AI (Some ''1'') (Text ''b'')]
   \<and> addMessages_summarization []
       (Many [Msg Human (Some ''9'') (Text ''x''), RemoveMessage ''9''])
     = []"
  by (simp add: addMessages_summarization_def remove_step_def)

section \<open>Replay of an update with tombstones\<close>

lemma foldl_remove_step_replay:
  assumes ids: "\<forall>u\<in>set us. \<not> is_remove u \<longrightarrow> truthy (msg_id u)"
    and apart: "tombstones_apart us" and single: "single_bearer current us"
  shows "foldl remove_step (foldl remove_step current us) us = foldl remove_step current us"
proof -
  let ?M = "filter (\<lambda>u. \<not> is_remove u) us"
  let ?T = "set (map msg_id (filter is_remove us))"
  let ?Q = "\<lambda>m. msg_id m \<notin> ?T"
  let ?V = "foldl replace_step current ?M"
  have once: "foldl remove_step current us = filter ?Q ?V"
    using apart single by (rule foldl_remove_step_normal_form)
  have "single_bearer (filter ?Q ?V) us"
  proof -
    have "filter (\<lambda>m. msg_id m = msg_id t) (filter ?Q ?V) = []"
      if "t \<in> set us" "is_remove t" for t
      using that by (auto simp: filter_empty_conv)
    then show ?thesis by (simp add: single_bearer_def)
  qed
  then have twice: "foldl remove_step (filter ?Q ?V) us
        = filter ?Q (foldl replace_step (filter ?Q ?V) ?M)"
    using apart by (intro foldl_remove_step_normal_form)
  have out: "\<forall>u\<in>set ?M. msg_id u \<notin> ?T"
  proof
    fix u assume u: "u \<in> set ?M"
    show "msg_id u \<notin> ?T"
    proof
      assume "msg_id u \<in> ?T"
      then obtain t where "t \<in> set us" "is_remove t" "msg_id t = msg_id u" by auto
      moreover have "u \<in> set us" "\<not> is_remove u" using u by simp_all
      ultimately show False using tombstones_apartD [OF apart] by metis
    qed
  qed
  have "foldl replace_step (filter ?Q ?V) ?M = filter ?Q (foldl replace_step ?V ?M)"
    using out by (rule foldl_replace_step_filter)
  also have "foldl replace_step ?V ?M = ?V"
    using ids by (intro foldl_replace_step_idem) simp
  finally show ?thesis using once twice by simp
qed

text \<open>
  Claim C3, as amended. When every message of the update has a non-empty identifier,
  applying the update twice through the replacing reducer of \<open>state-reducers.mts\<close>
  gives what applying it once gives, for every current list. The removing reducer of
  the summarization exercise does so when every message of the update that is not a
  tombstone has a non-empty identifier, no tombstone of the update shares its
  identifier with such a message, and at most one message of the current list bears
  the identifier of each tombstone; tombstones may repeat and may have any identifier.
\<close>

theorem replay_idempotent:
  "((\<forall>u\<in>set (messagesToAdd upd). truthy (msg_id u)) \<longrightarrow>
      addMessages_reducers (addMessages_reducers current upd) upd
        = addMessages_reducers current upd)
   \<and> ((\<forall>u\<in>set (messagesToAdd upd). \<not> is_remove u \<longrightarrow> truthy (msg_id u))
        \<and> tombstones_apart (messagesToAdd upd)
        \<and> single_bearer current (messagesToAdd upd) \<longrightarrow>
      addMessages_summarization (addMessages_summarization current upd) upd
        = addMessages_summarization current upd)"
proof -
  have a: "(\<forall>u\<in>set (messagesToAdd upd). truthy (msg_id u)) \<longrightarrow>
      addMessages_reducers (addMessages_reducers current upd) upd
        = addMessages_reducers current upd"
    using foldl_replace_step_idem [of "messagesToAdd upd" current]
    by (simp add: addMessages_reducers_def)
  have b: "(\<forall>u\<in>set (messagesToAdd upd). \<not> is_remove u \<longrightarrow> truthy (msg_id u))
        \<and> tombstones_apart (messagesToAdd upd)
        \<and> single_bearer current (messagesToAdd upd) \<longrightarrow>
      addMessages_summarization (addMessages_summarization current upd) upd
        = addMessages_summarization current upd"
    using foldl_remove_step_replay [of "messagesToAdd upd" current]
    by (simp add: addMessages_summarization_def)
  from a b show ?thesis by simp
qed

text \<open>An update that appends one message and replaces another, applied twice; and an
  update with repeated tombstones, one of them with the empty identifier, and a new
  message, applied twice.\<close>

theorem replay_idempotent_witness:
  "addMessages_reducers (addMessages_reducers
      [Msg AI (Some ''1'') (Text ''a'')]
      (Many [Msg Human (Some ''2'') (Text ''b''), Msg AI (Some ''1'') (Text ''a2'')]))
      (Many [Msg Human (Some ''2'') (Text ''b''), Msg AI (Some ''1'') (Text ''a2'')])
   = [Msg AI (Some ''1'') (Text ''a2''), Msg Human (Some ''2'') (Text ''b'')]
   \<and> addMessages_summarization (addMessages_summarization
      [Msg AI (Some ''1'') (Text ''a''), Msg Human (Some ''2'') (Text ''b''),
       Msg Human None (Text ''c'')]
      (Many [RemoveMessage ''1'', RemoveMessage [], Msg AI (Some ''3'') (Text ''d''),
             RemoveMessage ''1'']))
      (Many [RemoveMessage ''1'', RemoveMessage [], Msg AI (Some ''3'') (Text ''d''),
             RemoveMessage ''1''])
   = [Msg Human (Some ''2'') (Text ''b''), Msg Human None (Text ''c''),
      Msg AI (Some ''3'') (Text ''d'')]"
  using replay_idempotent [of
      "Many [Msg Human (Some ''2'') (Text ''b''), Msg AI (Some ''1'') (Text ''a2'')]"
      "[Msg AI (Some ''1'') (Text ''a'')]"]
    replay_idempotent [of
      "Many [RemoveMessage ''1'', RemoveMessage [], Msg AI (Some ''3'') (Text ''d''),
             RemoveMessage ''1'']"
      "[Msg AI (Some ''1'') (Text ''a''), Msg Human (Some ''2'') (Text ''b''),
        Msg Human None (Text ''c'')]"]
  by (simp add: addMessages_summarization_def addMessages_reducers_def remove_step_def
      replace_step_def tombstones_apart_def single_bearer_def)

text \<open>
  The claim as stated fails in the removing reducer. Every element of the update
  \<open>[RemoveMessage 1, A, C]\<close> carries an identifier. On the empty list the first pass
  gives \<open>[A, C]\<close>; the second pass removes \<open>A\<close>, appends it again behind \<open>C\<close> and
  gives \<open>[C, A]\<close>. And when two messages of the current list bear the identifier of
  a tombstone, each pass removes one of them.
\<close>

theorem replay_idempotent_counterexample:
  "addMessages_summarization []
     (Many [RemoveMessage ''1'', Msg AI (Some ''1'') (Text ''a''),
            Msg AI (Some ''3'') (Text ''c'')])
   = [Msg AI (Some ''1'') (Text ''a''), Msg AI (Some ''3'') (Text ''c'')]
   \<and> addMessages_summarization
       (addMessages_summarization []
          (Many [RemoveMessage ''1'', Msg AI (Some ''1'') (Text ''a''),
                 Msg AI (Some ''3'') (Text ''c'')]))
       (Many [RemoveMessage ''1'', Msg AI (Some ''1'') (Text ''a''),
              Msg AI (Some ''3'') (Text ''c'')])
   = [Msg AI (Some ''3'') (Text ''c''), Msg AI (Some ''1'') (Text ''a'')]
   \<and> addMessages_summarization
       [Msg Human (Some ''1'') (Text ''a''), Msg AI (Some ''1'') (Text ''b'')]
       (Single (RemoveMessage ''1''))
     = [Msg AI (Some ''1'') (Text ''b'')]
   \<and> addMessages_summarization
       (addMessages_summarization
          [Msg Human (Some ''1'') (Text ''a''), Msg AI (Some ''1'') (Text ''b'')]
          (Single (RemoveMessage ''1'')))
       (Single (RemoveMessage ''1''))
     = []"
  by (simp add: addMessages_summarization_def remove_step_def)

section \<open>Properties of the executor\<close>

subsection \<open>Concurrent writes to an overwrite channel\<close>

lemma two_members_length: "x \<in> set zs \<Longrightarrow> y \<in> set zs \<Longrightarrow> x \<noteq> y \<Longrightarrow> 1 < length zs"
  by (cases zs; cases "tl zs") auto

lemma step_conflict:
  assumes n1: "(n1, f1) \<in> set (nodes g)" and n2: "(n2, f2) \<in> set (nodes g)" and ne: "n1 \<noteq> n2"
    and c1: "n1 \<in> set current" and c2: "n2 \<in> set current"
    and known: "\<forall>n\<in>set current. n \<in> set (map fst (nodes g))"
    and k: "k \<in> set (overwrite_channels g)"
    and w1: "k \<in> set (written g (f1 s))" and w2: "k \<in> set (written g (f2 s))"
  shows "step g s current = Inl ConcurrentWriteConflict"
proof -
  let ?invoked = "filter (\<lambda>nf. fst nf \<in> set current) (nodes g)"
  let ?ups = "map (\<lambda>nf. snd nf s) ?invoked"
  let ?writers = "filter (\<lambda>nf. k \<in> set (written g (snd nf s))) ?invoked"
  have "(n1, f1) \<in> set ?writers" "(n2, f2) \<in> set ?writers"
    using n1 n2 c1 c2 w1 w2 by auto
  moreover have "(n1, f1) \<noteq> (n2, f2)" using ne by simp
  ultimately have "1 < length ?writers" by (rule two_members_length)
  moreover have "length (filter (\<lambda>p. k \<in> set (written g p)) ?ups) = length ?writers"
    by (simp add: filter_map comp_def)
  ultimately have "conflict g ?ups"
    using k unfolding conflict_def list_ex_iff by auto
  then show ?thesis using known by (auto simp: step_def Let_def)
qed

text \<open>
  What the specification asks of the executor holds of the model: a step whose node
  set holds two registered nodes that both write the key of a channel the graph
  declares as an overwrite channel raises \<open>ConcurrentWriteConflict\<close>, and the run ends
  with the snapshot of before the step.
\<close>

lemma declared_overwrite_conflict:
  assumes "(n1, f1) \<in> set (nodes g)" "(n2, f2) \<in> set (nodes g)" "n1 \<noteq> n2"
    "n1 \<in> set current" "n2 \<in> set current" "END \<notin> set current"
    "\<forall>n\<in>set current. n \<in> set (map fst (nodes g))"
    "k \<in> set (overwrite_channels g)" "k \<in> set (written g (f1 s))" "k \<in> set (written g (f2 s))"
  shows "step g s current = Inl ConcurrentWriteConflict
       \<and> run (Suc limit) g s current
           = \<lparr>final = s, outcome = Failed ConcurrentWriteConflict, trace = [], applied = []\<rparr>"
proof -
  have st: "step g s current = Inl ConcurrentWriteConflict"
    using assms(1-5,7-10) by (rule step_conflict)
  have "filter (\<lambda>n. n \<noteq> END) current = current"
    using assms(6) by (simp add: filter_id_conv) blast
  moreover have "current \<noteq> []" using assms(4) by auto
  ultimately show ?thesis using st by (simp add: Let_def)
qed

text \<open>
  Claim C5, which the code does not meet. The claim asks that a run in which two
  nodes of one step write the same overwrite-policy channel raises
  \<open>ConcurrentWriteConflict\<close> and applies neither value. In \<open>graphBranch\<close> the nodes
  \<open>node_2\<close> and \<open>node_3\<close> run in the same step and both write \<open>foo\<close>, whose reducer
  returns the update; the channel is declared with this reducer, so both writes are
  merged through it: invoked with \<open>{ foo: x }\<close> the run finishes without error, the
  three nodes have run, and \<open>foo\<close> is \<open>x + 1 + 1\<close>, the value \<open>node_3\<close> proposed.
\<close>

theorem graphBranch_applies_both_writes:
  "fst (invoke 3 (graphBranch add_one zero) Map.empty None \<lparr>foo_upd = Some x\<rparr>)
   = \<lparr>final = \<lparr>foo = add_one (add_one x)\<rparr>, outcome = Finished,
      trace = [''node_1'', ''node_2'', ''node_3''],
      applied = [\<lparr>foo_upd = Some (add_one x)\<rparr>, \<lparr>foo_upd = Some (add_one (add_one x))\<rparr>,
                 \<lparr>foo_upd = Some (add_one (add_one x))\<rparr>]\<rparr>"
proof -
  have entry: "entry_nodes (graphBranch add_one zero) = [''node_1'']"
    by (simp add: entry_nodes_def graphBranch_def START_def)
  have start: "applyUpdate (graphBranch add_one zero) (defaults (graphBranch add_one zero))
      \<lparr>foo_upd = Some x\<rparr> = \<lparr>foo = x\<rparr>"
    by (simp add: graphBranch_def merge_channel_def)
  have first: "step (graphBranch add_one zero) \<lparr>foo = x\<rparr> [''node_1'']
      = Inr (\<lparr>foo = add_one x\<rparr>, [''node_1''], [\<lparr>foo_upd = Some (add_one x)\<rparr>],
             [''node_2'', ''node_3''])"
    by (simp add: graphBranch_def step_def conflict_def destinations_def merge_channel_def
        node_1_branch_def START_def Let_def)
  have second: "step (graphBranch add_one zero) \<lparr>foo = add_one x\<rparr> [''node_2'', ''node_3'']
      = Inr (\<lparr>foo = add_one (add_one x)\<rparr>, [''node_2'', ''node_3''],
             [\<lparr>foo_upd = Some (add_one (add_one x))\<rparr>,
              \<lparr>foo_upd = Some (add_one (add_one x))\<rparr>],
             [END])"
    by (simp add: graphBranch_def step_def conflict_def destinations_def merge_channel_def
        node_2_branch_def node_3_branch_def START_def Let_def)
  show ?thesis
    using entry start first second
    by (simp add: invoke_def numeral_3_eq_3 END_def)
qed

text \<open>The run of the exercise, \<open>graphBranch.invoke({ foo: 1 })\<close>, with integers for the
  numbers: no error, and \<open>foo\<close> is 3.\<close>

theorem graphBranch_applies_both_writes_witness:
  "final (fst (invoke 3 (graphBranch (\<lambda>n. n + 1) (0 :: int)) Map.empty None
                 \<lparr>foo_upd = Some 1\<rparr>)) = \<lparr>foo = 3\<rparr>
   \<and> outcome (fst (invoke 3 (graphBranch (\<lambda>n. n + 1) (0 :: int)) Map.empty None
                 \<lparr>foo_upd = Some 1\<rparr>)) = Finished"
  using graphBranch_applies_both_writes [of "\<lambda>n. n + 1" "0 :: int" 1]
  by simp

subsection \<open>Routing on the post-merge snapshot\<close>

text \<open>
  Claim C6. A run of the summarization graph enters at \<open>conversation\<close>, merges the
  node's update, and evaluates \<open>should_continue\<close> on the merged snapshot: the nodes
  invoked are \<open>conversation\<close> and then \<open>summarize_conversation\<close> exactly when the
  merged message list has more than 6 messages, and \<open>conversation\<close> alone otherwise; in
  both cases the run finishes, with the snapshot the last merge produced.
\<close>

theorem route_after_merge:
  "entry_nodes (summarization_graph model) = [''conversation'']
   \<and> trace (run (Suc (Suc (Suc k))) (summarization_graph model) s [''conversation''])
     = (if 6 < length (messages (applyUpdate_State s (call_model model s)))
        then [''conversation'', ''summarize_conversation'']
        else [''conversation''])
   \<and> outcome (run (Suc (Suc (Suc k))) (summarization_graph model) s [''conversation''])
     = Finished
   \<and> final (run (Suc (Suc (Suc k))) (summarization_graph model) s [''conversation''])
     = (if 6 < length (messages (applyUpdate_State s (call_model model s)))
        then applyUpdate_State (applyUpdate_State s (call_model model s))
               (summarize_conversation model (applyUpdate_State s (call_model model s)))
        else applyUpdate_State s (call_model model s))
   \<and> (should_continue st = ''summarize_conversation'' \<longleftrightarrow> 6 < length (messages st))
   \<and> (should_continue st = END \<longleftrightarrow> \<not> 6 < length (messages st))"
proof -
  have entry: "entry_nodes (summarization_graph model) = [''conversation'']"
    by (simp add: entry_nodes_def summarization_graph_def START_def)
  have route: "(should_continue st = ''summarize_conversation'' \<longleftrightarrow> 6 < length (messages st))
     \<and> (should_continue st = END \<longleftrightarrow> \<not> 6 < length (messages st))"
    by (simp add: should_continue_def END_def)
  have first: "step (summarization_graph model) s [''conversation'']
      = Inr (applyUpdate_State s (call_model model s), [''conversation''],
             [call_model model s],
             [should_continue (applyUpdate_State s (call_model model s))])"
    by (simp add: summarization_graph_def step_def conflict_def destinations_def Let_def
        call_model_def START_def)
  have second: "step (summarization_graph model) s' [''summarize_conversation'']
      = Inr (applyUpdate_State s' (summarize_conversation model s'),
             [''summarize_conversation''], [summarize_conversation model s'], [END])" for s'
    by (simp add: summarization_graph_def step_def conflict_def destinations_def Let_def
        summarize_conversation_def START_def)
  show ?thesis
    using entry route first second by (simp add: should_continue_def END_def)
qed

text \<open>Six messages before the call: the answer is the seventh and the summary node runs.
  One message before the call: the run ends after \<open>conversation\<close>.\<close>

theorem route_after_merge_witness:
  "trace (run 3 (summarization_graph ok_model)
       \<lparr>messages = [Msg Human None (Text ''1''), Msg Human None (Text ''2''),
                    Msg Human None (Text ''3''), Msg Human None (Text ''4''),
                    Msg Human None (Text ''5''), Msg Human None (Text ''6'')],
        summary = []\<rparr> [''conversation''])
   = [''conversation'', ''summarize_conversation'']
   \<and> trace (run 3 (summarization_graph ok_model)
       \<lparr>messages = [Msg Human None (Text ''1'')], summary = []\<rparr> [''conversation''])
   = [''conversation'']"
  using route_after_merge [of ok_model 0
       "\<lparr>messages = [Msg Human None (Text ''1''), Msg Human None (Text ''2''),
                    Msg Human None (Text ''3''), Msg Human None (Text ''4''),
                    Msg Human None (Text ''5''), Msg Human None (Text ''6'')],
        summary = []\<rparr>"]
    route_after_merge [of ok_model 0
       "\<lparr>messages = [Msg Human None (Text ''1'')], summary = []\<rparr>"]
  by (simp add: numeral_3_eq_3 applyUpdate_State_def merge_channel_def call_model_def
      ok_model_def addMessages_summarization_def remove_step_def)

subsection \<open>Keys absent from a partial update\<close>

text \<open>
  Claim C7. Merging a partial update leaves every channel whose key the update does
  not carry at its current value, in the stores of the three graphs. The update
  \<open>call_model\<close> returns carries only the key \<open>messages\<close>, so the \<open>summary\<close> channel has
  the same value before and after its merge, and after the step of the executor that
  runs the node \<open>conversation\<close>.
\<close>

theorem absent_keys_untouched:
  "(messages_upd p = None \<longrightarrow> messages (applyUpdate_State s p) = messages s)
   \<and> (summary_upd p = None \<longrightarrow> summary (applyUpdate_State s p) = summary s)
   \<and> summary_upd (call_model model s) = None
   \<and> summary (applyUpdate_State s (call_model model s)) = summary s
   \<and> summary (final (run (Suc 0) (summarization_graph model) s [''conversation''])) = summary s
   \<and> (messages_upd q = None \<longrightarrow> applyUpdate_MessagesState ms q = ms)
   \<and> (foo_upd d = None \<longrightarrow> applyUpdate (graphBranch add_one zero) ds d = ds)"
proof -
  have absent: "merge_channel reducer current None = current" for reducer :: "'v \<Rightarrow> 'u \<Rightarrow> 'v"
    and current
    by (simp add: merge_channel_def)
  have node: "summary_upd (call_model model s) = None"
    by (simp add: call_model_def Let_def)
  have merged: "summary (applyUpdate_State s (call_model model s)) = summary s"
    using node by (simp add: applyUpdate_State_def absent)
  have "step (summarization_graph model) s [''conversation'']
      = Inr (applyUpdate_State s (call_model model s), [''conversation''],
             [call_model model s],
             [should_continue (applyUpdate_State s (call_model model s))])"
    by (simp add: summarization_graph_def step_def conflict_def destinations_def Let_def
        call_model_def START_def)
  then have stepped:
    "summary (final (run (Suc 0) (summarization_graph model) s [''conversation'']))
       = summary s"
    using merged by (simp add: END_def)
  show ?thesis
    using node merged stepped
    by (simp add: applyUpdate_State_def applyUpdate_MessagesState_def graphBranch_def absent)
qed

text \<open>A state with the summary \<open>earlier\<close>: the merge of the model's answer keeps it,
  and an update that carries only a summary keeps the messages. Updates without any key
  keep the stores of the other two graphs.\<close>

theorem absent_keys_untouched_witness:
  "summary (applyUpdate_State \<lparr>messages = [Msg Human None (Text ''hi'')], summary = ''earlier''\<rparr>
      (call_model ok_model \<lparr>messages = [Msg Human None (Text ''hi'')], summary = ''earlier''\<rparr>))
   = ''earlier''
   \<and> messages (applyUpdate_State \<lparr>messages = [Msg Human None (Text ''hi'')], summary = ''earlier''\<rparr>
      \<lparr>messages_upd = None, summary_upd = Some ''later''\<rparr>)
   = [Msg Human None (Text ''hi'')]
   \<and> summary (applyUpdate_State \<lparr>messages = [Msg Human None (Text ''hi'')], summary = ''earlier''\<rparr>
      \<lparr>messages_upd = Some (Single (Msg AI None (Text ''yo''))), summary_upd = None\<rparr>)
   = ''earlier''
   \<and> applyUpdate_MessagesState \<lparr>messages = [Msg Human None (Text ''hi'')]\<rparr>
        \<lparr>messages_upd = None\<rparr>
     = \<lparr>messages = [Msg Human None (Text ''hi'')]\<rparr>
   \<and> applyUpdate (graphBranch (\<lambda>n. n + 1) (0 :: int)) \<lparr>foo = 7\<rparr> \<lparr>foo_upd = None\<rparr>
     = \<lparr>foo = 7\<rparr>"
  using absent_keys_untouched [of "\<lparr>messages_upd = None, summary_upd = Some ''later''\<rparr>"
      "\<lparr>messages = [Msg Human None (Text ''hi'')], summary = ''earlier''\<rparr>" ok_model
      "\<lparr>messages_upd = None\<rparr>" "\<lparr>messages = [Msg Human None (Text ''hi'')]\<rparr>"
      "\<lparr>foo_upd = None\<rparr>" "\<lambda>n. n + 1" "0 :: int" "\<lparr>foo = 7\<rparr>"]
    absent_keys_untouched [of
      "\<lparr>messages_upd = Some (Single (Msg AI None (Text ''yo''))), summary_upd = None\<rparr>"
      "\<lparr>messages = [Msg Human None (Text ''hi'')], summary = ''earlier''\<rparr>" ok_model
      "\<lparr>messages_upd = None\<rparr>" "\<lparr>messages = [Msg Human None (Text ''hi'')]\<rparr>"
      "\<lparr>foo_upd = None\<rparr>" "\<lambda>n. n + 1" "0 :: int" "\<lparr>foo = 7\<rparr>"]
  by simp

subsection \<open>A second run on the same conversation identifier\<close>

lemma foldl_applyUpdate_MessagesState:
  "messages (foldl applyUpdate_MessagesState s ups) = messages s @ concat (map contribution ups)"
proof (induction ups arbitrary: s)
  case Nil
  show ?case by simp
next
  case (Cons p ups)
  have "messages (applyUpdate_MessagesState s p) = messages s @ contribution p"
    by (simp add: applyUpdate_MessagesState_def merge_channel_def contribution_def
        addMessages_router_def split: option.splits)
  then show ?case using Cons.IH [of "applyUpdate_MessagesState s p"] by simp
qed

lemma step_MessagesState:
  assumes "applyUpdate g = applyUpdate_MessagesState"
    and "step g s current = Inr (s', invoked, ups, dests)"
  shows "messages s' = messages s @ concat (map contribution ups)"
  using assms foldl_applyUpdate_MessagesState
  by (auto simp: step_def Let_def split: if_splits)

lemma run_MessagesState:
  assumes "applyUpdate g = applyUpdate_MessagesState"
  shows "messages (final (run k g s current))
         = messages s @ concat (map contribution (applied (run k g s current)))"
proof (induction k arbitrary: s current)
  case 0
  show ?case by simp
next
  case (Suc k)
  show ?case
  proof (cases "filter (\<lambda>n. n \<noteq> END) current = []")
    case True
    then show ?thesis by simp
  next
    case False
    show ?thesis
    proof (cases "step g s (filter (\<lambda>n. n \<noteq> END) current)")
      case (Inl e)
      then show ?thesis using False by simp
    next
      case (Inr t)
      obtain s' invoked ups dests where t: "t = (s', invoked, ups, dests)"
        by (cases t) auto
      have "messages s' = messages s @ concat (map contribution ups)"
        using step_MessagesState [OF assms] Inr t by simp
      then show ?thesis using False Inr t Suc.IH [of s' dests] by (simp add: Let_def)
    qed
  qed
qed

text \<open>
  Claim C8. Let a first run on a conversation identifier end with the result \<open>r1\<close>,
  and let a second run on the same identifier be invoked with the initial partial
  state \<open>{ messages: [newMsg] }\<close>. The checkpointer holds the last snapshot of the first
  run; the second run starts from this snapshot with the partial state merged into it
  by the channel's reducer, and its last message list is the first run's message list,
  then \<open>newMsg\<close>, then the messages of the partial updates its nodes returned, in the
  order in which they were merged. This holds for every model, tools node and routing
  function, and for every bound on the number of steps, however the runs end.
\<close>

theorem second_run_extends_first:
  assumes "g = reactGraphMemory llmWithTools toolNode toolsCondition"
    and "invoke limit1 g memory (Some thread) first = (r1, memory1)"
    and "invoke limit2 g memory1 (Some thread) \<lparr>messages_upd = Some (Many [newMsg])\<rparr>
           = (r2, memory2)"
  shows "memory1 thread = Some (final r1)
       \<and> r2 = run limit2 g (applyUpdate_MessagesState (final r1)
                               \<lparr>messages_upd = Some (Many [newMsg])\<rparr>) [''assistant'']
       \<and> messages (final r2)
           = messages (final r1) @ [newMsg] @ concat (map contribution (applied r2))"
proof -
  have ap: "applyUpdate g = applyUpdate_MessagesState"
    using assms(1) by (simp add: reactGraphMemory_def)
  have en: "entry_nodes g = [''assistant'']"
    using assms(1) by (simp add: entry_nodes_def reactGraphMemory_def START_def)
  have m1: "memory1 thread = Some (final r1)"
    using assms(2) by (auto simp: invoke_def Let_def)
  have r2: "r2 = run limit2 g (applyUpdate_MessagesState (final r1)
                               \<lparr>messages_upd = Some (Many [newMsg])\<rparr>) [''assistant'']"
    using assms(3) m1 ap en by (auto simp: invoke_def Let_def)
  have "messages (applyUpdate_MessagesState (final r1) \<lparr>messages_upd = Some (Many [newMsg])\<rparr>)
        = messages (final r1) @ [newMsg]"
    by (simp add: applyUpdate_MessagesState_def merge_channel_def addMessages_router_def)
  then have "messages (final r2)
           = messages (final r1) @ [newMsg] @ concat (map contribution (applied r2))"
    using run_MessagesState [OF ap] r2 by simp
  then show ?thesis using m1 r2 by simp
qed

text \<open>Two runs of the agent that always answers \<open>ok\<close>, on the conversation \<open>1\<close>: the
  second run ends with the two messages of the first, the new question and its answer.\<close>

theorem second_run_extends_first_witness:
  "messages (final (fst (invoke 3 ok_agent
       (snd (invoke 3 ok_agent Map.empty (Some ''1'')
              \<lparr>messages_upd = Some (Many [Msg Human None (Text ''Add 3 and 4.'')])\<rparr>))
       (Some ''1'')
       \<lparr>messages_upd = Some (Many [Msg Human None (Text ''Multiply that by 2.'')])\<rparr>)))
   = [Msg Human None (Text ''Add 3 and 4.''), Msg AI (Some ''r'') (Text ''ok''),
      Msg Human None (Text ''Multiply that by 2.''), Msg AI (Some ''r'') (Text ''ok'')]"
  using second_run_extends_first [OF ok_agent_def prod.collapse [symmetric]
      prod.collapse [symmetric], of 3 Map.empty "''1''"
      "\<lparr>messages_upd = Some (Many [Msg Human None (Text ''Add 3 and 4.'')])\<rparr>" 3
      "Msg Human None (Text ''Multiply that by 2.'')"]
  by (simp add: invoke_def entry_nodes_def ok_agent_def reactGraphMemory_def START_def END_def
      step_def conflict_def destinations_def applyUpdate_MessagesState_def merge_channel_def
      addMessages_router_def assistant_def ok_model_def numeral_3_eq_3 contribution_def)

end
